theory Spec2Isabelle
  imports Complex_Main
begin

section \<open>Ring buffer (internal/utils/ringbuffer.go)\<close>

text \<open>
  The generic fixed-size buffer. Go's \<open>int\<close> indices are natural numbers here (they
  are never negative and stay below twice the capacity); the capacity argument of the
  constructor is an \<open>int\<close>, since the constructor tests its sign. A run-time panic
  (index out of range, remainder by zero) is the value \<open>None\<close>. The mutex only
  makes each method atomic, so a method is a function on the buffer.
\<close>

record 'a RingBuffer =
  data :: "'a list"
  head :: nat
  tail :: nat
  count :: nat
  cap :: nat

text \<open>\<open>make([]T, capacity)\<close> fills the slice with the zero value of \<open>T\<close>, here \<open>z\<close>.\<close>

definition NewRingBuffer :: "'a \<Rightarrow> int \<Rightarrow> 'a RingBuffer" where
  "NewRingBuffer z capacity =
     (let capacity' = (if capacity \<le> 0 then 64 else capacity)
      in \<lparr>data = replicate (nat capacity') z, head = 0, tail = 0, count = 0,
          cap = nat capacity'\<rparr>)"

definition Push :: "'a RingBuffer \<Rightarrow> 'a \<Rightarrow> 'a RingBuffer option" where
  "Push rb item =
     (if \<not> tail rb < length (data rb) then None
      else if cap rb = 0 then None
      else
        let rb1 = rb\<lparr>data := (data rb)[tail rb := item]\<rparr>;
            rb2 = rb1\<lparr>tail := (tail rb1 + 1) mod cap rb1\<rparr>
        in if count rb2 < cap rb2 then Some (rb2\<lparr>count := count rb2 + 1\<rparr>)
           else Some (rb2\<lparr>head := (head rb2 + 1) mod cap rb2\<rparr>))"

text \<open>The loop of \<open>GetAll\<close>: \<open>result[i] = rb.data[(rb.head + i) % rb.cap]\<close> for \<open>i\<close> below \<open>count\<close>.\<close>

function GetAll_loop :: "'a RingBuffer \<Rightarrow> nat \<Rightarrow> 'a list \<Rightarrow> 'a list option" where
  "GetAll_loop rb i result =
     (if i < count rb then
        (if cap rb = 0 then None
         else let idx = (head rb + i) mod cap rb
              in if idx < length (data rb) \<and> i < length result
                 then GetAll_loop rb (i + 1) (result[i := data rb ! idx])
                 else None)
      else Some result)"
  by pat_completeness auto
termination
  by (relation "measure (\<lambda>(rb, i, result). count rb - i)") auto

declare GetAll_loop.simps [simp del]

text \<open>A \<open>nil\<close> slice is the empty list.\<close>

definition GetAll :: "'a \<Rightarrow> 'a RingBuffer \<Rightarrow> 'a list option" where
  "GetAll z rb =
     (if count rb = 0 then Some []
      else GetAll_loop rb 0 (replicate (count rb) z))"

definition Len :: "'a RingBuffer \<Rightarrow> nat" where
  "Len rb = count rb"

text \<open>A sequence of \<open>Push\<close> calls, in order; a panic ends it.\<close>

fun push_all :: "'a RingBuffer \<Rightarrow> 'a list \<Rightarrow> 'a RingBuffer option" where
  "push_all rb [] = Some rb"
| "push_all rb (x # xs) = (case Push rb x of None \<Rightarrow> None | Some rb' \<Rightarrow> push_all rb' xs)"

text \<open>
  The representation invariant of a buffer built by the constructor: the slice has
  \<open>cap\<close> cells, the indices are in range and \<open>tail\<close> is \<open>count\<close> cells after \<open>head\<close>.
\<close>

definition rb_inv :: "'a RingBuffer \<Rightarrow> bool" where
  "rb_inv rb \<longleftrightarrow>
     0 < cap rb \<and> length (data rb) = cap rb \<and> head rb < cap rb \<and> count rb \<le> cap rb \<and>
     tail rb = (head rb + count rb) mod cap rb"

text \<open>The contents read off the representation, oldest first.\<close>

definition contents :: "'a RingBuffer \<Rightarrow> 'a list" where
  "contents rb = map (\<lambda>i. data rb ! ((head rb + i) mod cap rb)) [0..<count rb]"

section \<open>Effective speak probability (internal/agent/react_agent.go, config)\<close>

text \<open>
  Go strings are sequences of runes (Unicode code points) here, since \<open>fmt\<close> and
  \<open>strings.Fields\<close> decode their input rune by rune. \<open>float64\<close> values are reals;
  the talk values below are only passed through, never computed with.
\<close>

type_synonym rune = nat

definition runes :: "string \<Rightarrow> rune list" where
  "runes s = map of_char s"

record TimeRuleConfig =
  TimeRange :: "rune list"
  GroupID :: int
  TalkValue :: real

record ChatConfig =
  TalkFrequency :: real
  TypingSimulation :: bool
  TypingSpeed :: int
  EnableTimeRules :: bool
  TimeRules :: "TimeRuleConfig list"

subsection \<open>The call \<open>fmt.Sscanf(rule.TimeRange, "%d:%d-%d:%d", ...)\<close>\<close>

text \<open>
  \<open>fmt.Sscanf\<close> belongs to Go's standard library; this is its behaviour on the one
  format string the agent uses. Before a \<open>%d\<close> it skips spaces (a newline is an error),
  then reads an optional sign and at least one decimal digit, converts with
  \<open>strconv.ParseInt\<close> (64 bits) and fails outside the \<open>int64\<close> range. A literal of
  the format must be the next rune of the input. Input after the last number is ignored.
  Any error is \<open>None\<close>.
\<close>

definition isSpace :: "rune \<Rightarrow> bool" where
  "isSpace r \<longleftrightarrow>
     (9 \<le> r \<and> r \<le> 13) \<or> r = 32 \<or> r = 133 \<or> r = 160 \<or> r = 5760 \<or>
     (8192 \<le> r \<and> r \<le> 8202) \<or> r = 8232 \<or> r = 8233 \<or> r = 8239 \<or> r = 8287 \<or>
     r = 12288"

fun SkipSpace :: "rune list \<Rightarrow> rune list option" where
  "SkipSpace [] = Some []"
| "SkipSpace (r # rs) =
     (if r = 10 then None else if isSpace r then SkipSpace rs else Some (r # rs))"

definition isDigit :: "rune \<Rightarrow> bool" where
  "isDigit r \<longleftrightarrow> 48 \<le> r \<and> r \<le> 57"

fun digits_value :: "int \<Rightarrow> rune list \<Rightarrow> int" where
  "digits_value acc [] = acc"
| "digits_value acc (d # ds) = digits_value (acc * 10 + (int d - 48)) ds"

definition accept_sign :: "rune list \<Rightarrow> bool \<times> rune list" where
  "accept_sign rs =
     (case rs of
        [] \<Rightarrow> (False, [])
      | r # rs' \<Rightarrow> if r = 43 then (False, rs') else if r = 45 then (True, rs') else (False, rs))"

definition scanInt :: "rune list \<Rightarrow> (int \<times> rune list) option" where
  "scanInt rs =
     (case SkipSpace rs of
        None \<Rightarrow> None
      | Some rs1 \<Rightarrow>
          if rs1 = [] then None
          else
            let (neg, rs2) = accept_sign rs1;
                tok = takeWhile isDigit rs2;
                rest = dropWhile isDigit rs2
            in if tok = [] then None
               else
                 let i = (if neg then - digits_value 0 tok else digits_value 0 tok)
                 in if i < - (2 ^ 63) \<or> 2 ^ 63 \<le> i then None else Some (i, rest))"

definition literal :: "rune \<Rightarrow> rune list \<Rightarrow> rune list option" where
  "literal c rs = (case rs of [] \<Rightarrow> None | r # rs' \<Rightarrow> if r = c then Some rs' else None)"

definition Sscanf_time_range :: "rune list \<Rightarrow> (int \<times> int \<times> int \<times> int) option" where
  "Sscanf_time_range s =
     Option.bind (scanInt s) (\<lambda>(startHour, s1).
     Option.bind (literal 58 s1) (\<lambda>s2.
     Option.bind (scanInt s2) (\<lambda>(startMin, s3).
     Option.bind (literal 45 s3) (\<lambda>s4.
     Option.bind (scanInt s4) (\<lambda>(endHour, s5).
     Option.bind (literal 58 s5) (\<lambda>s6.
     Option.bind (scanInt s6) (\<lambda>(endMin, s7).
     Some (startHour, startMin, endHour, endMin))))))))"

subsection \<open>\<open>Agent.getSpeakProbability\<close>\<close>

text \<open>Go's \<open>int\<close> arithmetic wraps around at 64 bits.\<close>

definition wrap64 :: "int \<Rightarrow> int" where
  "wrap64 x = (x + 2 ^ 63) mod 2 ^ 64 - 2 ^ 63"

text \<open>
  The loop over \<open>a.cfg.Chat.TimeRules\<close>; \<open>continue\<close> is the recursive call on the rest,
  \<open>return rule.TalkValue\<close> ends the loop, and falling out of the loop returns
  \<open>baseProb\<close>.
\<close>

fun time_rules_loop :: "real \<Rightarrow> int \<Rightarrow> int \<Rightarrow> TimeRuleConfig list \<Rightarrow> real" where
  "time_rules_loop baseProb currentMinutes groupID [] = baseProb"
| "time_rules_loop baseProb currentMinutes groupID (rule # rules) =
     (if GroupID rule \<noteq> 0 \<and> GroupID rule \<noteq> groupID
      then time_rules_loop baseProb currentMinutes groupID rules
      else
        case Sscanf_time_range (TimeRange rule) of
          None \<Rightarrow> time_rules_loop baseProb currentMinutes groupID rules
        | Some (startHour, startMin, endHour, endMin) \<Rightarrow>
            let startMinutes = wrap64 (wrap64 (startHour * 60) + startMin);
                endMinutes = wrap64 (wrap64 (endHour * 60) + endMin)
            in if startMinutes \<le> endMinutes then
                 (if currentMinutes \<ge> startMinutes \<and> currentMinutes < endMinutes
                  then TalkValue rule
                  else time_rules_loop baseProb currentMinutes groupID rules)
               else
                 (if currentMinutes \<ge> startMinutes \<or> currentMinutes < endMinutes
                  then TalkValue rule
                  else time_rules_loop baseProb currentMinutes groupID rules))"

text \<open>\<open>hour\<close> and \<open>minute\<close> are \<open>time.Now().Hour()\<close> and \<open>time.Now().Minute()\<close>.\<close>

definition getSpeakProbability :: "ChatConfig \<Rightarrow> int \<Rightarrow> int \<Rightarrow> int \<Rightarrow> real" where
  "getSpeakProbability cfg hour minute groupID =
     (let baseProb = TalkFrequency cfg
      in if \<not> EnableTimeRules cfg \<or> length (TimeRules cfg) = 0 then baseProb
         else
           let currentMinutes = hour * 60 + minute
           in time_rules_loop baseProb currentMinutes groupID (TimeRules cfg))"

subsection \<open>The rule as the specification words it\<close>

text \<open>
  A range from \<open>start\<close> to \<open>end\<close> (minutes of the day) contains \<open>t\<close> when
  \<open>start \<le> t < end\<close>; a range with \<open>start > end\<close> wraps midnight and contains exactly the
  \<open>t\<close> with \<open>t \<ge> start\<close> or \<open>t < end\<close>.
\<close>

definition range_contains :: "int \<Rightarrow> int \<Rightarrow> int \<Rightarrow> bool" where
  "range_contains start end' t \<longleftrightarrow>
     (if start > end' then t \<ge> start \<or> t < end' else start \<le> t \<and> t < end')"

definition rule_range :: "TimeRuleConfig \<Rightarrow> (int \<times> int) option" where
  "rule_range rule =
     (case Sscanf_time_range (TimeRange rule) of
        None \<Rightarrow> None
      | Some (sh, sm, eh, em) \<Rightarrow> Some (wrap64 (wrap64 (sh * 60) + sm), wrap64 (wrap64 (eh * 60) + em)))"

definition rule_matches :: "int \<Rightarrow> int \<Rightarrow> TimeRuleConfig \<Rightarrow> bool" where
  "rule_matches groupID t rule \<longleftrightarrow>
     (GroupID rule = groupID \<or> GroupID rule = 0) \<and>
     (case rule_range rule of None \<Rightarrow> False | Some (s, e) \<Rightarrow> range_contains s e t)"

definition effective_speak_probability :: "ChatConfig \<Rightarrow> int \<Rightarrow> int \<Rightarrow> real" where
  "effective_speak_probability cfg t groupID =
     (if \<not> EnableTimeRules cfg then TalkFrequency cfg
      else case List.find (rule_matches groupID t) (TimeRules cfg) of
             None \<Rightarrow> TalkFrequency cfg
           | Some rule \<Rightarrow> TalkValue rule)"

section \<open>The relational store behind the memory manager (package memory)\<close>

text \<open>
  The manager talks to MySQL through gorm. A table is the list of its rows; the fields
  of a row type carry a short prefix, since every model has \<open>ID\<close>, \<open>CreatedAt\<close> and
  so on. Times are integers (nanoseconds), strings are rune sequences. What the engine
  decides is a parameter of the model: the collation \<open>eqc\<close> under which a string column
  equals a value, the \<open>LIKE\<close> predicate, and whether a statement fails (a \<open>bool\<close>
  argument per statement, \<open>True\<close> for a failure). \<open>gorm.ErrRecordNotFound\<close> is the
  one error the manager tells from the others.
\<close>

type_synonym gostring = "rune list"

datatype db_error = ErrRecordNotFound | ErrDatabase

record Sticker =
  s_ID :: nat
  s_CreatedAt :: int
  s_UpdatedAt :: int
  s_FileName :: gostring
  s_FileHash :: gostring
  s_Description :: gostring
  s_UseCount :: int

record Expression =
  e_ID :: nat
  e_CreatedAt :: int
  e_UpdatedAt :: int
  e_GroupID :: int
  e_Situation :: gostring
  e_Style :: gostring
  e_Examples :: gostring
  e_Checked :: bool
  e_Rejected :: bool

record Memory =
  m_ID :: nat
  m_CreatedAt :: int
  m_UpdatedAt :: int
  m_Type :: gostring
  m_GroupID :: int
  m_UserID :: int
  m_Content :: gostring
  m_Importance :: real
  m_AccessCount :: int

record MemberProfile =
  mp_ID :: nat
  mp_CreatedAt :: int
  mp_UpdatedAt :: int
  mp_UserID :: int
  mp_Nickname :: gostring
  mp_SpeakStyle :: gostring
  mp_Interests :: gostring
  mp_CommonWords :: gostring
  mp_Activity :: real
  mp_Intimacy :: real
  mp_LastSpeak :: int
  mp_MsgCount :: int

record MoodState =
  mood_ID :: nat
  mood_UpdatedAt :: int
  Valence :: real
  Energy :: real
  Sociability :: real
  LastReason :: gostring

record DB =
  stickers :: "Sticker list"
  expressions :: "Expression list"
  memories :: "Memory list"
  member_profiles :: "MemberProfile list"
  mood_state :: "MoodState list"

subsection \<open>gorm statements\<close>

text \<open>
  \<open>First\<close> is \<open>SELECT ... WHERE cond ORDER BY id LIMIT 1\<close>: the matching row with the
  least primary key, or \<open>ErrRecordNotFound\<close>.
\<close>

fun min_by_id :: "('r \<Rightarrow> nat) \<Rightarrow> 'r list \<Rightarrow> 'r option" where
  "min_by_id key [] = None"
| "min_by_id key (r # rs) =
     (case min_by_id key rs of
        None \<Rightarrow> Some r
      | Some r' \<Rightarrow> if key r \<le> key r' then Some r else Some r')"

definition First :: "bool \<Rightarrow> ('r \<Rightarrow> nat) \<Rightarrow> ('r \<Rightarrow> bool) \<Rightarrow> 'r list \<Rightarrow> db_error + 'r" where
  "First fault key cond rows =
     (if fault then Inl ErrDatabase
      else case min_by_id key (filter cond rows) of
             None \<Rightarrow> Inl ErrRecordNotFound
           | Some r \<Rightarrow> Inr r)"

text \<open>An auto-increment primary key: larger than every key of the table.\<close>

definition next_id :: "nat list \<Rightarrow> nat" where
  "next_id ids = Suc (fold max ids 0)"

text \<open>
  \<open>Create\<close> inserts one row. A zero primary key is replaced by the next
  auto-increment value and zero timestamps by the current time; a primary key already in
  the table, or a value already in a unique index, is an error of the engine.
\<close>

definition Create_sticker ::
  "bool \<Rightarrow> (gostring \<Rightarrow> gostring \<Rightarrow> bool) \<Rightarrow> int \<Rightarrow> DB \<Rightarrow> Sticker \<Rightarrow> db_error + DB" where
  "Create_sticker fault eqc now db s =
     (let rows = stickers db
      in if fault then Inl ErrDatabase
         else if list_ex (\<lambda>r. eqc (s_FileHash r) (s_FileHash s)) rows then Inl ErrDatabase
         else if s_ID s \<noteq> 0 \<and> s_ID s \<in> set (map s_ID rows) then Inl ErrDatabase
         else
           let row = s\<lparr>s_ID := (if s_ID s = 0 then next_id (map s_ID rows) else s_ID s),
                       s_CreatedAt := (if s_CreatedAt s = 0 then now else s_CreatedAt s),
                       s_UpdatedAt := (if s_UpdatedAt s = 0 then now else s_UpdatedAt s)\<rparr>
           in Inr (db\<lparr>stickers := rows @ [row]\<rparr>))"

definition Create_expression :: "bool \<Rightarrow> int \<Rightarrow> DB \<Rightarrow> Expression \<Rightarrow> db_error + DB" where
  "Create_expression fault now db e =
     (let rows = expressions db
      in if fault then Inl ErrDatabase
         else if e_ID e \<noteq> 0 \<and> e_ID e \<in> set (map e_ID rows) then Inl ErrDatabase
         else
           let row = e\<lparr>e_ID := (if e_ID e = 0 then next_id (map e_ID rows) else e_ID e),
                       e_CreatedAt := (if e_CreatedAt e = 0 then now else e_CreatedAt e),
                       e_UpdatedAt := (if e_UpdatedAt e = 0 then now else e_UpdatedAt e)\<rparr>
           in Inr (db\<lparr>expressions := rows @ [row]\<rparr>))"

text \<open>
  \<open>db.Model(&existing).Updates(map[string]any{"examples": v})\<close>: an \<open>UPDATE\<close> of the
  row with the primary key of \<open>existing\<close>, which also sets \<open>updated_at\<close>.
\<close>

definition Updates_examples ::
  "bool \<Rightarrow> int \<Rightarrow> DB \<Rightarrow> Expression \<Rightarrow> gostring \<Rightarrow> db_error + DB" where
  "Updates_examples fault now db existing v =
     (if fault then Inl ErrDatabase
      else Inr (db\<lparr>expressions :=
             map (\<lambda>r. if e_ID r = e_ID existing
                       then r\<lparr>e_Examples := v, e_UpdatedAt := now\<rparr> else r)
               (expressions db)\<rparr>))"

subsection \<open>\<open>Manager.SaveSticker\<close>\<close>

text \<open>
  The result pairs the store after the call with the returned \<open>(bool, error)\<close>:
  \<open>Inr b\<close> is \<open>(b, nil)\<close> and \<open>Inl e\<close> is \<open>(false, e)\<close>.
\<close>

definition SaveSticker ::
  "bool \<Rightarrow> bool \<Rightarrow> (gostring \<Rightarrow> gostring \<Rightarrow> bool) \<Rightarrow> int \<Rightarrow> DB \<Rightarrow> Sticker
     \<Rightarrow> DB \<times> (db_error + bool)" where
  "SaveSticker fault_first fault_create eqc now db sticker =
     (case First fault_first s_ID (\<lambda>r. eqc (s_FileHash r) (s_FileHash sticker)) (stickers db) of
        Inr existing \<Rightarrow> (db, Inr True)
      | Inl err \<Rightarrow>
          if err \<noteq> ErrRecordNotFound then (db, Inl err)
          else
            (case Create_sticker fault_create eqc now db sticker of
               Inl err' \<Rightarrow> (db, Inl err')
             | Inr db' \<Rightarrow> (db', Inr False)))"

subsection \<open>\<open>Manager.SaveExpression\<close>\<close>

text \<open>A \<open>nil\<close> pointer argument is \<open>None\<close>.\<close>

definition SaveExpression ::
  "bool \<Rightarrow> bool \<Rightarrow> bool \<Rightarrow> (gostring \<Rightarrow> gostring \<Rightarrow> bool) \<Rightarrow> int \<Rightarrow> DB \<Rightarrow> Expression option
     \<Rightarrow> DB \<times> (db_error + bool)" where
  "SaveExpression fault_first fault_updates fault_create eqc now db expr_opt =
     (case expr_opt of
        None \<Rightarrow> (db, Inr False)
      | Some expr \<Rightarrow>
          let create =
                (case Create_expression fault_create now db expr of
                   Inl err \<Rightarrow> (db, Inl err)
                 | Inr db' \<Rightarrow> (db', Inr True))
          in if e_GroupID expr \<noteq> 0 \<and> e_Situation expr \<noteq> [] \<and> e_Style expr \<noteq> [] then
               (case First fault_first e_ID
                       (\<lambda>r. e_GroupID r = e_GroupID expr \<and> eqc (e_Situation r) (e_Situation expr) \<and>
                            eqc (e_Style r) (e_Style expr))
                       (expressions db) of
                  Inr existing \<Rightarrow>
                    if e_Examples existing = [] \<and> e_Examples expr \<noteq> [] then
                      (case Updates_examples fault_updates now db existing (e_Examples expr) of
                         Inl err \<Rightarrow> (db, Inl err)
                       | Inr db' \<Rightarrow> (db', Inr True))
                    else (db, Inr False)
                | Inl err \<Rightarrow> if err \<noteq> ErrRecordNotFound then (db, Inl err) else create)
             else create)"

text \<open>The \<open>WHERE\<close> clause of \<open>SaveExpression\<close>: the row has the key of the argument.\<close>

definition same_expression ::
  "(gostring \<Rightarrow> gostring \<Rightarrow> bool) \<Rightarrow> Expression \<Rightarrow> Expression \<Rightarrow> bool" where
  "same_expression eqc expr r \<longleftrightarrow>
     e_GroupID r = e_GroupID expr \<and> eqc (e_Situation r) (e_Situation expr) \<and>
     eqc (e_Style r) (e_Style expr)"

subsection \<open>Example rows\<close>

definition sticker0 :: Sticker where
  "sticker0 = \<lparr>s_ID = 1, s_CreatedAt = 5, s_UpdatedAt = 5, s_FileName = runes ''a.png'',
     s_FileHash = runes ''abc'', s_Description = [], s_UseCount = 0\<rparr>"

definition expression0 :: Expression where
  "expression0 = \<lparr>e_ID = 1, e_CreatedAt = 5, e_UpdatedAt = 5, e_GroupID = 7,
     e_Situation = runes ''greet'', e_Style = runes ''yo'', e_Examples = [],
     e_Checked = False, e_Rejected = False\<rparr>"

definition db0 :: DB where
  "db0 = \<lparr>stickers = [sticker0], expressions = [expression0], memories = [],
           member_profiles = [], mood_state = []\<rparr>"

section \<open>The agent: intake, speaking and the think lock (internal/agent/react_agent.go)\<close>

record GroupMessage =
  gm_MessageID :: int
  gm_GroupID :: int
  gm_UserID :: int
  gm_Nickname :: gostring
  gm_Content :: gostring
  gm_MentionAmu :: bool
  gm_MentionAll :: bool
  gm_Time :: int
  gm_MessageType :: gostring
  gm_AtList :: "int list"

record MessageLog =
  ml_ID :: nat
  ml_CreatedAt :: int
  ml_MessageID :: gostring
  ml_GroupID :: int
  ml_UserID :: int
  ml_Nickname :: gostring
  ml_Content :: gostring
  ml_MsgType :: gostring
  ml_MentionAmu :: bool

record GroupConfig =
  gc_GroupID :: int
  gc_Enabled :: bool

text \<open>
  What the agent reads and never writes: the group list and buffer size of the
  configuration, the bot's own account id, the persona's name and its mention test
  (\<open>Persona.IsMentioned\<close>, a case-insensitive substring test of the standard library),
  and the collation of the message-log table.
\<close>

record AgentEnv =
  Groups :: "GroupConfig list"
  MessageBufferSize :: int
  SelfID :: int
  PersonaName :: gostring
  IsMentioned :: "gostring \<Rightarrow> bool"
  log_eqc :: "gostring \<Rightarrow> gostring \<Rightarrow> bool"

text \<open>
  A goroutine started with \<open>go\<close> is recorded in \<open>spawned\<close>. \<open>in_flight\<close> and
  \<open>llm_calls\<close> are bookkeeping for the think lock: the invocations of \<open>think\<close> that
  are past the entry test and have not yet run the deferred exit, each with its group,
  and the invocations that called the model.
\<close>

datatype goroutine = GoUpdateMember GroupMessage | GoThink int bool

record Agent =
  buffers :: "int \<rightharpoonup> GroupMessage RingBuffer"
  lastSpeak :: "int \<rightharpoonup> int"
  processing :: "int \<rightharpoonup> bool"
  lastProcessedTime :: "int \<rightharpoonup> int"
  message_logs :: "MessageLog list"
  spawned :: "goroutine list"
  in_flight :: "(nat \<times> int) list"
  llm_calls :: "(nat \<times> int) list"

subsection \<open>Configuration lookups\<close>

definition GetGroupConfig :: "AgentEnv \<Rightarrow> int \<Rightarrow> GroupConfig option" where
  "GetGroupConfig env groupID = List.find (\<lambda>gc. gc_GroupID gc = groupID) (Groups env)"

definition IsGroupEnabled :: "AgentEnv \<Rightarrow> int \<Rightarrow> bool" where
  "IsGroupEnabled env groupID =
     (case GetGroupConfig env groupID of None \<Rightarrow> False | Some gc \<Rightarrow> gc_Enabled gc)"

subsection \<open>Intake: \<open>onMessage\<close>\<close>

text \<open>\<open>fmt.Sprintf("%d", n)\<close>: the decimal digits of \<open>n\<close>, after a minus sign when negative.\<close>

fun digits_of :: "nat \<Rightarrow> rune list" where
  "digits_of n = (if n < 10 then [48 + n] else digits_of (n div 10) @ [48 + n mod 10])"

declare digits_of.simps [simp del]

definition Sprintf_d :: "int \<Rightarrow> gostring" where
  "Sprintf_d n = (if n < 0 then 45 # digits_of (nat (- n)) else digits_of (nat n))"

text \<open>\<open>strings.Join(parts, " ")\<close>.\<close>

fun Join_space :: "gostring list \<Rightarrow> gostring" where
  "Join_space [] = []"
| "Join_space [p] = p"
| "Join_space (p # q # ps) = p @ [32] @ Join_space (q # ps)"

text \<open>The runes of the literal for "at everyone" are \<open>@\<close>, U+5168, U+4F53, U+6210, U+5458.\<close>

definition buildContentWithAt :: "AgentEnv \<Rightarrow> GroupMessage \<Rightarrow> gostring" where
  "buildContentWithAt env msg =
     (let atParts = (if gm_MentionAll msg then [[64, 20840, 20307, 25104, 21592]] else []) @
                    map (\<lambda>uid. if uid \<noteq> SelfID env then 64 # Sprintf_d uid
                               else 64 # PersonaName env)
                      (gm_AtList msg)
      in if length atParts = 0 then gm_Content msg
         else Join_space atParts @ [32] @ gm_Content msg)"

text \<open>
  \<open>addBuffer\<close>: the group's buffer is created on first use, with 50 cells when the
  configured size is not positive, and the message is pushed.
\<close>

definition addBuffer :: "AgentEnv \<Rightarrow> Agent \<Rightarrow> GroupMessage \<Rightarrow> Agent option" where
  "addBuffer env a msg =
     (let buf = (case buffers a (gm_GroupID msg) of
                   Some b \<Rightarrow> b
                 | None \<Rightarrow>
                     let bufSize = (if MessageBufferSize env \<le> 0 then 50
                                    else MessageBufferSize env)
                     in NewRingBuffer msg bufSize)
      in case Push buf msg of
           None \<Rightarrow> None
         | Some buf' \<Rightarrow> Some (a\<lparr>buffers := (buffers a)(gm_GroupID msg \<mapsto> buf')\<rparr>))"

text \<open>
  \<open>Manager.AddMessage\<close> is \<open>db.Create(&msg)\<close> on a table with a unique index on
  \<open>message_id\<close>; \<open>onMessage\<close> drops its error.
\<close>

definition AddMessage :: "bool \<Rightarrow> AgentEnv \<Rightarrow> MessageLog list \<Rightarrow> MessageLog \<Rightarrow> db_error + MessageLog list" where
  "AddMessage fault env rows msg =
     (if fault then Inl ErrDatabase
      else if list_ex (\<lambda>r. log_eqc env (ml_MessageID r) (ml_MessageID msg)) rows
      then Inl ErrDatabase
      else Inr (rows @ [msg\<lparr>ml_ID := next_id (map ml_ID rows)\<rparr>]))"

definition onMessage :: "bool \<Rightarrow> AgentEnv \<Rightarrow> Agent \<Rightarrow> GroupMessage \<Rightarrow> Agent option" where
  "onMessage fault env a msg =
     (if \<not> IsGroupEnabled env (gm_GroupID msg) then Some a
      else
        let isSelf = (gm_UserID msg = SelfID env);
            mentionByName = IsMentioned env (gm_Content msg);
            isMention = (gm_MentionAmu msg \<or> mentionByName)
        in case addBuffer env a msg of
             None \<Rightarrow> None
           | Some a1 \<Rightarrow>
               let entry = \<lparr>ml_ID = 0, ml_CreatedAt = gm_Time msg,
                            ml_MessageID = Sprintf_d (gm_MessageID msg),
                            ml_GroupID = gm_GroupID msg, ml_UserID = gm_UserID msg,
                            ml_Nickname = gm_Nickname msg,
                            ml_Content = buildContentWithAt env msg,
                            ml_MsgType = gm_MessageType msg, ml_MentionAmu = isMention\<rparr>;
                   a2 = (case AddMessage fault env (message_logs a1) entry of
                           Inl err \<Rightarrow> a1
                         | Inr rows \<Rightarrow> a1\<lparr>message_logs := rows\<rparr>)
               in if isSelf then Some a2
                  else
                    let a3 = a2\<lparr>spawned := spawned a2 @ [GoUpdateMember msg]\<rparr>
                    in if isMention
                       then Some (a3\<lparr>spawned := spawned a3 @ [GoThink (gm_GroupID msg) True]\<rparr>)
                       else Some a3)"

subsection \<open>Speaking: \<open>recordSpeak\<close> and \<open>doSpeak\<close>\<close>

definition recordSpeak :: "Agent \<Rightarrow> int \<Rightarrow> int \<Rightarrow> Agent" where
  "recordSpeak a groupID now = a\<lparr>lastSpeak := (lastSpeak a)(groupID \<mapsto> now)\<rparr>"

text \<open>
  The gateway is the outside world: each of its two send calls returns a message id or
  an error. The typing delay at the head of \<open>doSpeak\<close> is a \<open>time.Sleep\<close>; it
  changes no state and only moves the two clock readings \<open>now_speak\<close> (in
  \<open>recordSpeak\<close>) and \<open>now_msg\<close> (the \<open>Time\<close> of the message record). The text of
  the message type is the literal \<open>group\<close>.
\<close>

datatype send_error = SendError

record Gateway =
  SendGroupMessage :: "int \<Rightarrow> gostring \<Rightarrow> send_error + int"
  SendGroupMessageReply :: "int \<Rightarrow> gostring \<Rightarrow> int \<Rightarrow> send_error + int"

definition self_message :: "AgentEnv \<Rightarrow> int \<Rightarrow> int \<Rightarrow> gostring \<Rightarrow> int \<Rightarrow> GroupMessage" where
  "self_message env msgID groupID content now_msg =
     \<lparr>gm_MessageID = msgID, gm_GroupID = groupID, gm_UserID = SelfID env,
      gm_Nickname = PersonaName env, gm_Content = content, gm_MentionAmu = False,
      gm_MentionAll = False, gm_Time = now_msg, gm_MessageType = runes ''group'',
      gm_AtList = []\<rparr>"

definition doSpeak ::
  "bool \<Rightarrow> AgentEnv \<Rightarrow> Gateway \<Rightarrow> int \<Rightarrow> int \<Rightarrow> Agent \<Rightarrow> int \<Rightarrow> gostring \<Rightarrow> int
     \<Rightarrow> (Agent \<times> int) option" where
  "doSpeak fault env gw now_speak now_msg a groupID content replyTo =
     (let r = (if replyTo > 0 then SendGroupMessageReply gw groupID content replyTo
               else SendGroupMessage gw groupID content)
      in case r of
           Inl err \<Rightarrow> Some (a, 0)
         | Inr msgID \<Rightarrow>
             let a1 = recordSpeak a groupID now_speak;
                 msg = self_message env msgID groupID content now_msg
             in case onMessage fault env a1 msg of
                  None \<Rightarrow> None
                | Some a2 \<Rightarrow> Some (a2, msgID))"

subsection \<open>The think lock\<close>

text \<open>
  \<open>think\<close> begins with a section under \<open>processingMu\<close> that tests and sets
  \<open>processing[groupID]\<close>, and its deferred function clears the flag under the same
  mutex. Each section is one atomic step. \<open>think_enter\<close> returns whether the
  invocation goes on; \<open>False\<close> is the early \<open>return\<close>. A missing key of a Go map
  reads as \<open>false\<close>. \<open>t\<close> names the invocation.
\<close>

definition is_processing :: "Agent \<Rightarrow> int \<Rightarrow> bool" where
  "is_processing a groupID = (case processing a groupID of Some b \<Rightarrow> b | None \<Rightarrow> False)"

definition think_enter :: "Agent \<Rightarrow> nat \<Rightarrow> int \<Rightarrow> Agent \<times> bool" where
  "think_enter a t groupID =
     (if is_processing a groupID then (a, False)
      else (a\<lparr>processing := (processing a)(groupID \<mapsto> True),
               in_flight := (t, groupID) # in_flight a\<rparr>, True))"

definition think_exit :: "Agent \<Rightarrow> nat \<Rightarrow> int \<Rightarrow> Agent" where
  "think_exit a t groupID =
     a\<lparr>processing := (processing a)(groupID \<mapsto> False),
       in_flight := removeAll (t, groupID) (in_flight a)\<rparr>"

text \<open>
  Between entry and exit the invocation builds the prompt, calls the model
  (\<open>a.react.Generate\<close>) and may speak. None of that code touches \<open>processing\<close>; a
  step of it is any change \<open>upd\<close> of the other fields, and \<open>think_generate\<close> is the
  call of the model.
\<close>

definition keeps_lock :: "Agent \<Rightarrow> Agent \<Rightarrow> bool" where
  "keeps_lock a a' \<longleftrightarrow>
     processing a' = processing a \<and> in_flight a' = in_flight a \<and> llm_calls a' = llm_calls a"

definition think_generate :: "Agent \<Rightarrow> nat \<Rightarrow> int \<Rightarrow> Agent" where
  "think_generate a t groupID = a\<lparr>llm_calls := llm_calls a @ [(t, groupID)]\<rparr>"

text \<open>
  \<open>think\<close> run without interruption by another goroutine: the entry section, the
  stamp of \<open>lastProcessedTime\<close> under the mutex, the early return on an empty chat
  context (\<open>no_ctx\<close>), the call of the model, and the deferred function on every return
  after the entry section. The early return of the entry section comes before the
  \<open>defer\<close> statement, so nothing runs after it.
\<close>

definition think :: "Agent \<Rightarrow> nat \<Rightarrow> int \<Rightarrow> int \<Rightarrow> bool \<Rightarrow> Agent" where
  "think a t groupID now no_ctx =
     (case think_enter a t groupID of
        (a1, False) \<Rightarrow> a1
      | (a1, True) \<Rightarrow>
          (let a2 = a1\<lparr>lastProcessedTime := (lastProcessedTime a1)(groupID \<mapsto> now)\<rparr>
           in if no_ctx then think_exit a2 t groupID
              else think_exit (think_generate a2 t groupID) t groupID))"

definition agent0 :: Agent where
  "agent0 = \<lparr>buffers = Map.empty, lastSpeak = Map.empty, processing = Map.empty,
             lastProcessedTime = Map.empty, message_logs = [], spawned = [],
             in_flight = [], llm_calls = []\<rparr>"

text \<open>
  The runs of the agent: any interleaving of the atomic steps of any number of
  invocations of \<open>think\<close>. Each invocation has a program counter that follows the
  control flow of the function: \<open>Entry\<close> before the entry section; \<open>Skipped\<close> after
  the early \<open>return\<close> of the entry section; \<open>Locked\<close> after the flag was set;
  \<open>Context\<close> after \<open>lastProcessedTime\<close> was stamped; \<open>Deferred\<close> when the body has
  returned (on an empty context, or after \<open>a.react.Generate\<close>) and the deferred function
  is to run; \<open>Finished\<close> after it. \<open>spawn\<close> is the \<open>go a.think(...)\<close> statement, and
  \<open>other\<close> is a step of any code that does not touch the lock (tools, message
  handling, the other goroutines).
\<close>

datatype think_pc = Entry | Locked | Context | Deferred | Finished | Skipped

fun holds_lock :: "think_pc \<Rightarrow> bool" where
  "holds_lock Locked = True"
| "holds_lock Context = True"
| "holds_lock Deferred = True"
| "holds_lock _ = False"

type_synonym think_pcs = "nat \<rightharpoonup> int \<times> think_pc"

inductive think_step :: "think_pcs \<times> Agent \<Rightarrow> think_pcs \<times> Agent \<Rightarrow> bool" where
  spawn: "ps t = None \<Longrightarrow> think_step (ps, a) (ps(t \<mapsto> (g, Entry)), a)"
| entry: "ps t = Some (g, Entry) \<Longrightarrow>
          think_step (ps, a)
            (ps(t \<mapsto> (g, if snd (think_enter a t g) then Locked else Skipped)),
             fst (think_enter a t g))"
| stamp: "ps t = Some (g, Locked) \<Longrightarrow>
          think_step (ps, a)
            (ps(t \<mapsto> (g, Context)), a\<lparr>lastProcessedTime := (lastProcessedTime a)(g \<mapsto> now)\<rparr>)"
| no_context: "ps t = Some (g, Context) \<Longrightarrow> think_step (ps, a) (ps(t \<mapsto> (g, Deferred)), a)"
| generate: "ps t = Some (g, Context) \<Longrightarrow>
          think_step (ps, a) (ps(t \<mapsto> (g, Deferred)), think_generate a t g)"
| exit: "ps t = Some (g, Deferred) \<Longrightarrow>
          think_step (ps, a) (ps(t \<mapsto> (g, Finished)), think_exit a t g)"
| other: "keeps_lock a a' \<Longrightarrow> think_step (ps, a) (ps, a')"

inductive think_run :: "think_pcs \<times> Agent \<Rightarrow> bool" where
  init: "think_run (Map.empty, agent0)"
| step: "think_run c \<Longrightarrow> think_step c c' \<Longrightarrow> think_run c'"

text \<open>The invocations in flight for a group.\<close>

definition episodes :: "Agent \<Rightarrow> int \<Rightarrow> (nat \<times> int) list" where
  "episodes a groupID = filter (\<lambda>e. snd e = groupID) (in_flight a)"

text \<open>
  The invariant of the lock: the flag of a group is set exactly when an invocation is in
  flight for the group, and never more than one is.
\<close>

definition lock_inv :: "Agent \<Rightarrow> bool" where
  "lock_inv a \<longleftrightarrow>
     (\<forall>g. (is_processing a g \<longleftrightarrow> episodes a g \<noteq> []) \<and> length (episodes a g) \<le> 1)"

text \<open>
  The bookkeeping agrees with the program counters: the invocations in flight are those
  between the entry section and the deferred function, and an invocation that called
  the model is at its deferred function or past it.
\<close>

definition pcs_inv :: "think_pcs \<Rightarrow> Agent \<Rightarrow> bool" where
  "pcs_inv ps a \<longleftrightarrow>
     (\<forall>t g. ((t, g) \<in> set (in_flight a)) = (\<exists>pc. ps t = Some (g, pc) \<and> holds_lock pc)) \<and>
     (\<forall>t g. (t, g) \<in> set (llm_calls a) \<longrightarrow> ps t = Some (g, Deferred) \<or> ps t = Some (g, Finished))"

text \<open>
  An example run: invocation 1 for group 7 is admitted, invocation 2 for the same group
  is turned away, and invocation 1 has called the model and not yet run its deferred
  function.
\<close>

definition pcs1 :: think_pcs where
  "pcs1 = [1 \<mapsto> (7, Deferred), 2 \<mapsto> (7, Skipped)]"

definition agent1 :: Agent where
  "agent1 = think_generate
              ((fst (think_enter agent0 1 7))\<lparr>lastProcessedTime := [7 \<mapsto> 100]\<rparr>) 1 7"

text \<open>The buffer of a group, when it exists, is one the constructor and \<open>Push\<close> made.\<close>

definition buffer_ok :: "Agent \<Rightarrow> int \<Rightarrow> bool" where
  "buffer_ok a groupID = (case buffers a groupID of None \<Rightarrow> True | Some b \<Rightarrow> rb_inv b)"

text \<open>The newest message of a group's buffer, as \<open>Peek\<close> reads it off a non-empty buffer.\<close>

definition newest :: "Agent \<Rightarrow> int \<Rightarrow> GroupMessage option" where
  "newest a groupID =
     (case buffers a groupID of
        None \<Rightarrow> None
      | Some b \<Rightarrow> if count b = 0 then None
                  else Some (data b ! ((tail b + cap b - 1) mod cap b)))"

text \<open>The send call \<open>doSpeak\<close> makes.\<close>

definition gateway_send :: "Gateway \<Rightarrow> int \<Rightarrow> gostring \<Rightarrow> int \<Rightarrow> send_error + int" where
  "gateway_send gw groupID content replyTo =
     (if replyTo > 0 then SendGroupMessageReply gw groupID content replyTo
      else SendGroupMessage gw groupID content)"

subsection \<open>Example environment\<close>

definition env0 :: AgentEnv where
  "env0 = \<lparr>Groups = [\<lparr>gc_GroupID = 7, gc_Enabled = True\<rparr>], MessageBufferSize = 3,
            SelfID = 1000, PersonaName = runes ''mumu'', IsMentioned = (\<lambda>s. False),
            log_eqc = (=)\<rparr>"

definition gw_down :: Gateway where
  "gw_down = \<lparr>SendGroupMessage = (\<lambda>g c. Inl SendError),
               SendGroupMessageReply = (\<lambda>g c r. Inl SendError)\<rparr>"

definition gw_up :: Gateway where
  "gw_up = \<lparr>SendGroupMessage = (\<lambda>g c. Inr 42), SendGroupMessageReply = (\<lambda>g c r. Inr 43)\<rparr>"

section \<open>Floating point: binary64 as Go computes it\<close>

text \<open>
  A \<open>float64\<close> value is the real number it denotes, and each arithmetic operation is
  the exact operation followed by rounding to the nearest binary64 number, ties to the
  even significand. A binary64 number is an integer multiple of its quantum: \<open>2\<close> to
  the power \<open>e - 52\<close> for a value in the binade of \<open>2\<close> to the \<open>e\<close>, and \<open>2\<close> to
  the power \<open>-1074\<close> in the subnormal range below \<open>2\<close> to the \<open>-1022\<close>. The
  exponent is not bounded above here: overflow to infinity needs magnitudes near
  \<open>1.8e308\<close>, and a NaN does not arise from finite operands under the operations
  used. The language lets a compiler fuse \<open>x * y + z\<close> into one rounding (it does on
  arm64, not on amd64); \<open>fused\<close> says which.
\<close>

definition pow2 :: "int \<Rightarrow> real" where
  "pow2 k = (if 0 \<le> k then 2 ^ nat k else 1 / 2 ^ nat (- k))"

definition round_half_even :: "real \<Rightarrow> int" where
  "round_half_even z =
     (let f = \<lfloor>z\<rfloor>; d = z - of_int f
      in if d < 1 / 2 then f else if 1 / 2 < d then f + 1 else if even f then f else f + 1)"

definition quantum :: "real \<Rightarrow> real" where
  "quantum x = (if x < pow2 (- 1022) then pow2 (- 1074) else pow2 (\<lfloor>log 2 x\<rfloor> - 52))"

text \<open>Rounding a magnitude, and rounding a signed value: the sign is kept.\<close>

definition fl_mag :: "real \<Rightarrow> real" where
  "fl_mag x = of_int (round_half_even (x / quantum x)) * quantum x"

definition fl :: "real \<Rightarrow> real" where
  "fl x = (if x < 0 then - fl_mag (- x) else fl_mag x)"

definition f64_add :: "real \<Rightarrow> real \<Rightarrow> real" where
  "f64_add x y = fl (x + y)"

definition f64_sub :: "real \<Rightarrow> real \<Rightarrow> real" where
  "f64_sub x y = fl (x - y)"

definition f64_mul :: "real \<Rightarrow> real \<Rightarrow> real" where
  "f64_mul x y = fl (x * y)"

definition f64_div :: "real \<Rightarrow> real \<Rightarrow> real" where
  "f64_div x y = fl (x / y)"

text \<open>\<open>z + x * y\<close> and \<open>z - x * y\<close>, fused or not.\<close>

definition f64_add_mul :: "bool \<Rightarrow> real \<Rightarrow> real \<Rightarrow> real \<Rightarrow> real" where
  "f64_add_mul fused z x y = (if fused then fl (z + x * y) else f64_add z (f64_mul x y))"

definition f64_sub_mul :: "bool \<Rightarrow> real \<Rightarrow> real \<Rightarrow> real \<Rightarrow> real" where
  "f64_sub_mul fused z x y = (if fused then fl (z - x * y) else f64_sub z (f64_mul x y))"

text \<open>A value a \<open>float64\<close> variable can hold.\<close>

definition is_f64 :: "real \<Rightarrow> bool" where
  "is_f64 x \<longleftrightarrow> fl x = x"

text \<open>The exponent of the binade of a magnitude, \<open>-1022\<close> for a subnormal one.\<close>

definition expo :: "real \<Rightarrow> int" where
  "expo x = (if x < pow2 (- 1022) then - 1022 else \<lfloor>log 2 x\<rfloor>)"

section \<open>Mood and member profiles (package memory)\<close>

subsection \<open>gorm statements on the mood and profile tables\<close>

definition Create_mood :: "bool \<Rightarrow> int \<Rightarrow> DB \<Rightarrow> MoodState \<Rightarrow> db_error + DB \<times> MoodState" where
  "Create_mood fault now db mood =
     (let rows = mood_state db
      in if fault then Inl ErrDatabase
         else if mood_ID mood \<noteq> 0 \<and> mood_ID mood \<in> set (map mood_ID rows) then Inl ErrDatabase
         else
           let row = mood\<lparr>mood_ID := (if mood_ID mood = 0 then next_id (map mood_ID rows)
                                         else mood_ID mood),
                          mood_UpdatedAt := (if mood_UpdatedAt mood = 0 then now
                                             else mood_UpdatedAt mood)\<rparr>
           in Inr (db\<lparr>mood_state := rows @ [row]\<rparr>, row))"

text \<open>
  \<open>Save\<close> writes every field of the record: an insert for a zero primary key, else an
  update of the row with that key, or an insert when no row has it. It sets
  \<open>UpdatedAt\<close>, in the table and in the record the caller holds.
\<close>

definition Save_mood :: "bool \<Rightarrow> int \<Rightarrow> DB \<Rightarrow> MoodState \<Rightarrow> db_error + DB \<times> MoodState" where
  "Save_mood fault now db mood =
     (let rows = mood_state db; row = mood\<lparr>mood_UpdatedAt := now\<rparr>
      in if fault then Inl ErrDatabase
         else if mood_ID mood = 0 then
           (let row' = row\<lparr>mood_ID := next_id (map mood_ID rows)\<rparr>
            in Inr (db\<lparr>mood_state := rows @ [row']\<rparr>, row'))
         else if mood_ID mood \<in> set (map mood_ID rows) then
           Inr (db\<lparr>mood_state := map (\<lambda>r. if mood_ID r = mood_ID mood then row else r) rows\<rparr>,
                row)
         else Inr (db\<lparr>mood_state := rows @ [row]\<rparr>, row))"

text \<open>The profile table has a unique index on \<open>user_id\<close>.\<close>

definition Save_profile ::
  "bool \<Rightarrow> int \<Rightarrow> DB \<Rightarrow> MemberProfile \<Rightarrow> db_error + DB \<times> MemberProfile" where
  "Save_profile fault now db p =
     (let rows = member_profiles db; row = p\<lparr>mp_UpdatedAt := now\<rparr>
      in if fault then Inl ErrDatabase
         else if list_ex (\<lambda>r. mp_UserID r = mp_UserID p \<and> mp_ID r \<noteq> mp_ID p) rows
         then Inl ErrDatabase
         else if mp_ID p = 0 then
           (let row' = row\<lparr>mp_ID := next_id (map mp_ID rows),
                            mp_CreatedAt := (if mp_CreatedAt p = 0 then now else mp_CreatedAt p)\<rparr>
            in Inr (db\<lparr>member_profiles := rows @ [row']\<rparr>, row'))
         else if mp_ID p \<in> set (map mp_ID rows) then
           Inr (db\<lparr>member_profiles := map (\<lambda>r. if mp_ID r = mp_ID p then row else r) rows\<rparr>,
                row)
         else Inr (db\<lparr>member_profiles := rows @ [row]\<rparr>, row))"

subsection \<open>\<open>Manager.GetMoodState\<close>, \<open>UpdateMoodState\<close>, \<open>ApplyMoodDecay\<close>\<close>

text \<open>
  Modelled from the spec: \<open>utils.ClampFloat64\<close> is called by \<open>UpdateMoodState\<close> but its
  source is not among the files. The specification says of it that the mood fields are
  clamped into their ranges on every write (per-field clamping to \<open>[lo, hi]\<close>): a value
  below the range becomes \<open>lo\<close>, one above becomes \<open>hi\<close>, one inside is kept.
\<close>

definition ClampFloat64 :: "real \<Rightarrow> real \<Rightarrow> real \<Rightarrow> real" where
  "ClampFloat64 v lo hi = (if v < lo then lo else if hi < v then hi else v)"

definition default_mood :: MoodState where
  "default_mood = \<lparr>mood_ID = 0, mood_UpdatedAt = 0, Valence = 0, Energy = 1 / 2,
                    Sociability = 1 / 2, LastReason = []\<rparr>"

text \<open>
  The results pair the store after the call with what the call returns; \<open>Inl\<close> is the
  error return, with a \<open>nil\<close> mood.
\<close>

definition GetMoodState :: "bool \<Rightarrow> bool \<Rightarrow> int \<Rightarrow> DB \<Rightarrow> DB \<times> (db_error + MoodState)" where
  "GetMoodState fault_first fault_create now db =
     (case First fault_first mood_ID (\<lambda>r. True) (mood_state db) of
        Inr mood \<Rightarrow> (db, Inr mood)
      | Inl err \<Rightarrow>
          if err = ErrRecordNotFound then
            (case Create_mood fault_create now db default_mood of
               Inl err' \<Rightarrow> (db, Inl err')
             | Inr (db', mood) \<Rightarrow> (db', Inr mood))
          else (db, Inl err))"

definition UpdateMoodState ::
  "bool \<Rightarrow> bool \<Rightarrow> bool \<Rightarrow> int \<Rightarrow> DB \<Rightarrow> real \<Rightarrow> real \<Rightarrow> real \<Rightarrow> gostring
     \<Rightarrow> DB \<times> (db_error + MoodState)" where
  "UpdateMoodState fault_first fault_create fault_save now db
       valenceDelta energyDelta sociabilityDelta reason =
     (case GetMoodState fault_first fault_create now db of
        (db1, Inl err) \<Rightarrow> (db1, Inl err)
      | (db1, Inr mood) \<Rightarrow>
          let mood1 = mood\<lparr>Valence := ClampFloat64 (f64_add (Valence mood) valenceDelta) (- 1) 1\<rparr>;
              mood2 = mood1\<lparr>Energy := ClampFloat64 (f64_add (Energy mood1) energyDelta) 0 1\<rparr>;
              mood3 = mood2\<lparr>Sociability :=
                               ClampFloat64 (f64_add (Sociability mood2) sociabilityDelta) 0 1\<rparr>;
              mood4 = mood3\<lparr>LastReason := reason\<rparr>
          in case Save_mood fault_save now db1 mood4 of
               Inl err \<Rightarrow> (db1, Inl err)
             | Inr (db2, saved) \<Rightarrow> (db2, Inr saved))"

text \<open>
  \<open>ApplyMoodDecay\<close> returns only an error; \<open>Inr\<close> carries the record it saved. The
  constants \<open>0.95\<close> and \<open>0.05\<close> are the binary64 numbers nearest to them.
\<close>

definition ApplyMoodDecay ::
  "bool \<Rightarrow> bool \<Rightarrow> bool \<Rightarrow> bool \<Rightarrow> int \<Rightarrow> DB \<Rightarrow> DB \<times> (db_error + MoodState)" where
  "ApplyMoodDecay fused fault_first fault_create fault_save now db =
     (case GetMoodState fault_first fault_create now db of
        (db1, Inl err) \<Rightarrow> (db1, Inl err)
      | (db1, Inr mood) \<Rightarrow>
          let mood1 = mood\<lparr>Valence := f64_mul (Valence mood) (fl (95 / 100))\<rparr>;
              mood2 = mood1\<lparr>Energy :=
                               f64_add_mul fused (Energy mood1)
                                 (f64_sub (1 / 2) (Energy mood1)) (fl (5 / 100))\<rparr>;
              mood3 = mood2\<lparr>Sociability :=
                               f64_add_mul fused (Sociability mood2)
                                 (f64_sub (1 / 2) (Sociability mood2)) (fl (5 / 100))\<rparr>
          in case Save_mood fault_save now db1 mood3 of
               Inl err \<Rightarrow> (db1, Inl err)
             | Inr (db2, saved) \<Rightarrow> (db2, Inr saved))"

text \<open>The ranges of the mood fields.\<close>

definition mood_in_range :: "MoodState \<Rightarrow> bool" where
  "mood_in_range m \<longleftrightarrow>
     - 1 \<le> Valence m \<and> Valence m \<le> 1 \<and> 0 \<le> Energy m \<and> Energy m \<le> 1 \<and>
     0 \<le> Sociability m \<and> Sociability m \<le> 1"

subsection \<open>\<open>Manager.UpdateMemberProfile\<close>\<close>

text \<open>
  Go's integer division truncates toward zero and the remainder has the sign of the
  dividend. \<open>Duration.Hours\<close> is
  \<open>float64(d / Hour) + float64(d % Hour) / (60 * 60 * 1e9)\<close>, a \<open>Duration\<close> being
  a number of nanoseconds.
\<close>

definition go_quot :: "int \<Rightarrow> int \<Rightarrow> int" where
  "go_quot a b = sgn a * sgn b * (\<bar>a\<bar> div \<bar>b\<bar>)"

definition go_rem :: "int \<Rightarrow> int \<Rightarrow> int" where
  "go_rem a b = a - b * go_quot a b"

definition Hour :: int where
  "Hour = 3600000000000"

definition Hours :: "int \<Rightarrow> real" where
  "Hours d =
     f64_add (fl (of_int (go_quot d Hour)))
             (f64_div (fl (of_int (go_rem d Hour))) (fl (of_int Hour)))"

text \<open>
  \<open>since1\<close> and \<open>since2\<close> are the two readings of \<open>time.Since(profile.LastSpeak)\<close>.
  \<open>Inr\<close> carries the record as saved.
\<close>

definition UpdateMemberProfile ::
  "bool \<Rightarrow> bool \<Rightarrow> int \<Rightarrow> int \<Rightarrow> int \<Rightarrow> DB \<Rightarrow> MemberProfile
     \<Rightarrow> DB \<times> (db_error + MemberProfile)" where
  "UpdateMemberProfile fused fault_save now since1 since2 db profile =
     (let daysSinceLastSpeak = f64_div (Hours since1) 24;
          p1 = (if 0 < daysSinceLastSpeak then
                  (let q = profile\<lparr>mp_Activity :=
                                       f64_sub_mul fused (mp_Activity profile) (fl (1 / 10))
                                         daysSinceLastSpeak\<rparr>
                   in if mp_Activity q < fl (1 / 10) then q\<lparr>mp_Activity := fl (1 / 10)\<rparr> else q)
                else profile);
          p2 = (if since2 < Hour then
                  (let q = p1\<lparr>mp_Activity := f64_add (mp_Activity p1) (fl (5 / 100))\<rparr>
                   in if 1 < mp_Activity q then q\<lparr>mp_Activity := 1\<rparr> else q)
                else p1)
      in case Save_profile fault_save now db p2 of
           Inl err \<Rightarrow> (db, Inl err)
         | Inr (db', saved) \<Rightarrow> (db', Inr saved))"

text \<open>
  The one place that assigns \<open>Intimacy\<close> after creation is the tool
  \<open>updateMemberProfileFunc\<close> (internal/tools/memory.go): when the input carries an
  intimacy, it is limited to \<open>[0, 1]\<close> and stored in the profile before
  \<open>UpdateMemberProfile\<close> is called.
\<close>

definition tool_set_intimacy :: "real option \<Rightarrow> MemberProfile \<Rightarrow> MemberProfile" where
  "tool_set_intimacy input_Intimacy profile =
     (case input_Intimacy of
        None \<Rightarrow> profile
      | Some v \<Rightarrow>
          let intimacy = (if v < 0 then 0 else if 1 < v then 1 else v)
          in profile\<lparr>mp_Intimacy := intimacy\<rparr>)"

definition profile_in_range :: "MemberProfile \<Rightarrow> bool" where
  "profile_in_range p \<longleftrightarrow>
     0 \<le> mp_Activity p \<and> mp_Activity p \<le> 1 \<and> 0 \<le> mp_Intimacy p \<and> mp_Intimacy p \<le> 1"

subsection \<open>Example rows\<close>

definition mood_wild :: MoodState where
  "mood_wild = \<lparr>mood_ID = 1, mood_UpdatedAt = 5, Valence = 7, Energy = - 2,
                 Sociability = 1 / 2, LastReason = []\<rparr>"

definition mood_tiny :: MoodState where
  "mood_tiny = \<lparr>mood_ID = 1, mood_UpdatedAt = 5, Valence = pow2 (- 1074), Energy = 1 / 2,
                 Sociability = 1 / 2, LastReason = []\<rparr>"

text \<open>
  Nine quanta from each fixpoint: the quantum is \<open>2\<close> to the \<open>-1074\<close> at \<open>0\<close>,
  \<open>2\<close> to the \<open>-53\<close> just above \<open>0.5\<close> and \<open>2\<close> to the \<open>-54\<close> just below.
\<close>

definition mood_near :: MoodState where
  "mood_near = \<lparr>mood_ID = 1, mood_UpdatedAt = 5, Valence = 9 * pow2 (- 1074),
                 Energy = 1 / 2 + 9 * pow2 (- 53), Sociability = 1 / 2 - 9 * pow2 (- 54),
                 LastReason = []\<rparr>"

definition mood_half :: MoodState where
  "mood_half = \<lparr>mood_ID = 1, mood_UpdatedAt = 5, Valence = 1 / 2, Energy = 1,
                 Sociability = 0, LastReason = []\<rparr>"

definition profile0 :: MemberProfile where
  "profile0 = \<lparr>mp_ID = 1, mp_CreatedAt = 5, mp_UpdatedAt = 5, mp_UserID = 42,
                mp_Nickname = runes ''ann'', mp_SpeakStyle = [], mp_Interests = [],
                mp_CommonWords = [], mp_Activity = 1 / 2, mp_Intimacy = 3 / 10,
                mp_LastSpeak = 0, mp_MsgCount = 3\<rparr>"

definition db_with :: "MoodState \<Rightarrow> MemberProfile \<Rightarrow> DB" where
  "db_with mood profile =
     \<lparr>stickers = [], expressions = [], memories = [], member_profiles = [profile],
      mood_state = [mood]\<rparr>"

section \<open>Memory retrieval: \<open>Manager.QueryMemory\<close>\<close>

subsection \<open>\<open>strings.Fields\<close>\<close>

text \<open>
  The query is split around runs of white space as \<open>unicode.IsSpace\<close> defines it, the
  same set of runes as \<open>isSpace\<close> above. \<open>cur\<close> is the field being read.
\<close>

fun fields_from :: "gostring \<Rightarrow> gostring \<Rightarrow> gostring list" where
  "fields_from cur [] = (if cur = [] then [] else [cur])"
| "fields_from cur (r # rs) =
     (if isSpace r then (if cur = [] then fields_from [] rs else cur # fields_from [] rs)
      else fields_from (cur @ [r]) rs)"

definition Fields :: "gostring \<Rightarrow> gostring list" where
  "Fields s = fields_from [] s"

subsection \<open>The vector path\<close>

text \<open>
  Milvus is the outside world: \<open>search\<close> is what \<open>m.milvus.Search\<close> returns for the
  call, the memory ids in rank order or an error. The rows with those ids are read
  (\<open>fault_find\<close>), each has its access count incremented by an \<open>UPDATE\<close> of its own
  whose error is dropped (\<open>touch_fails\<close>, by memory id; the update also sets
  \<open>updated_at\<close>), and the rows as read are returned in the order of the search result.
\<close>

definition milvusVectorSearch ::
  "(db_error + nat list) \<Rightarrow> bool \<Rightarrow> (nat \<Rightarrow> bool) \<Rightarrow> int \<Rightarrow> DB
     \<Rightarrow> DB \<times> (db_error + Memory list)" where
  "milvusVectorSearch search fault_find touch_fails now db =
     (case search of
        Inl err \<Rightarrow> (db, Inl err)
      | Inr results \<Rightarrow>
          if length results = 0 then (db, Inr [])
          else if fault_find then (db, Inl ErrDatabase)
          else
            let found = filter (\<lambda>r. m_ID r \<in> set results) (memories db);
                db' = db\<lparr>memories :=
                         map (\<lambda>r. if m_ID r \<in> set results \<and> \<not> touch_fails (m_ID r)
                                   then r\<lparr>m_AccessCount := m_AccessCount r + 1,
                                          m_UpdatedAt := now\<rparr>
                                   else r)
                           (memories db)\<rparr>;
                sortedMemories =
                  concat (map (\<lambda>i. case List.find (\<lambda>r. m_ID r = i) (rev found) of
                                       None \<Rightarrow> []
                                     | Some r \<Rightarrow> [r])
                            results)
            in (db', Inr sortedMemories))"

subsection \<open>The keyword fallback\<close>

text \<open>
  \<open>ORDER BY importance DESC, updated_at DESC\<close>: \<open>ranks_before a b\<close> says that \<open>a\<close>
  may stand before \<open>b\<close>. The engine is free in the order of ties; here the sort is
  an insertion sort over the rows in table order.
\<close>

definition ranks_before :: "Memory \<Rightarrow> Memory \<Rightarrow> bool" where
  "ranks_before a b \<longleftrightarrow>
     m_Importance b < m_Importance a \<or>
     (m_Importance a = m_Importance b \<and> m_UpdatedAt b \<le> m_UpdatedAt a)"

fun order_insert :: "Memory \<Rightarrow> Memory list \<Rightarrow> Memory list" where
  "order_insert x [] = [x]"
| "order_insert x (y # ys) = (if ranks_before x y then x # y # ys else y # order_insert x ys)"

definition order_by_rank :: "Memory list \<Rightarrow> Memory list" where
  "order_by_rank rows = foldr order_insert rows []"

text \<open>
  \<open>Limit(n)\<close> of gorm: a positive \<open>n\<close> keeps the first \<open>n\<close> rows and a negative one
  adds no \<open>LIMIT\<close> clause. For zero, releases of gorm differ (no clause, or
  \<open>LIMIT 0\<close>); \<open>zero_is_unlimited\<close> says which.
\<close>

definition sql_limit :: "bool \<Rightarrow> int \<Rightarrow> 'a list \<Rightarrow> 'a list" where
  "sql_limit zero_is_unlimited n rows =
     (if 0 < n then take (nat n) rows
      else if n = 0 \<and> \<not> zero_is_unlimited then []
      else rows)"

text \<open>The \<open>WHERE\<close> clause the fallback builds; the pattern of a keyword is \<open>%keyword%\<close>.\<close>

definition keyword_match ::
  "(gostring \<Rightarrow> gostring \<Rightarrow> bool) \<Rightarrow> (gostring \<Rightarrow> gostring \<Rightarrow> bool) \<Rightarrow> gostring list \<Rightarrow> int
     \<Rightarrow> gostring \<Rightarrow> Memory \<Rightarrow> bool" where
  "keyword_match like eqc keywords groupID memType r \<longleftrightarrow>
     (groupID = 0 \<or> m_GroupID r = groupID) \<and>
     (memType = [] \<or> eqc (m_Type r) memType) \<and>
     list_ex (\<lambda>kw. like ([37] @ kw @ [37]) (m_Content r)) keywords"

definition keyword_search ::
  "(gostring \<Rightarrow> gostring \<Rightarrow> bool) \<Rightarrow> (gostring \<Rightarrow> gostring \<Rightarrow> bool) \<Rightarrow> bool \<Rightarrow> bool \<Rightarrow> bool
     \<Rightarrow> int \<Rightarrow> DB \<Rightarrow> gostring \<Rightarrow> int \<Rightarrow> gostring \<Rightarrow> int \<Rightarrow> DB \<times> (db_error + Memory list)" where
  "keyword_search like eqc zero_is_unlimited fault_find fault_bump now db query groupID memType
       limit =
     (let keywords = Fields query
      in if length keywords = 0 then (db, Inr [])
         else if fault_find then (db, Inl ErrDatabase)
         else
           let found = sql_limit zero_is_unlimited limit
                         (order_by_rank
                            (filter (keyword_match like eqc keywords groupID memType)
                               (memories db)))
           in if 0 < length found \<and> \<not> fault_bump then
                (db\<lparr>memories :=
                      map (\<lambda>r. if m_ID r \<in> set (map m_ID found)
                                then r\<lparr>m_AccessCount := m_AccessCount r + 1, m_UpdatedAt := now\<rparr>
                                else r)
                        (memories db)\<rparr>, Inr found)
              else (db, Inr found))"

subsection \<open>\<open>QueryMemory\<close>\<close>

text \<open>
  \<open>milvus_present\<close> and \<open>embedding_present\<close> are the two \<open>nil\<close> tests and
  \<open>embed_ok\<close> says that \<open>Embed\<close> returned no error.
\<close>

definition QueryMemory ::
  "bool \<Rightarrow> bool \<Rightarrow> bool \<Rightarrow> (db_error + nat list) \<Rightarrow> bool \<Rightarrow> (nat \<Rightarrow> bool)
     \<Rightarrow> (gostring \<Rightarrow> gostring \<Rightarrow> bool) \<Rightarrow> (gostring \<Rightarrow> gostring \<Rightarrow> bool) \<Rightarrow> bool \<Rightarrow> bool \<Rightarrow> bool
     \<Rightarrow> int \<Rightarrow> DB \<Rightarrow> gostring \<Rightarrow> int \<Rightarrow> gostring \<Rightarrow> int \<Rightarrow> DB \<times> (db_error + Memory list)" where
  "QueryMemory milvus_present embedding_present embed_ok search fault_vfind touch_fails
       like eqc zero_is_unlimited fault_find fault_bump now db query groupID memType limit =
     (let fallback = (\<lambda>db1. keyword_search like eqc zero_is_unlimited fault_find fault_bump now db1
                              query groupID memType limit)
      in if milvus_present \<and> embedding_present then
           (if embed_ok then
              (case milvusVectorSearch search fault_vfind touch_fails now db of
                 (db1, Inr results) \<Rightarrow>
                   if 0 < length results then (db1, Inr results) else fallback db1
               | (db1, Inl err) \<Rightarrow> fallback db1)
            else fallback db)
         else fallback db)"

text \<open>
  The vector path gives nothing: there is no vector index or no embedding provider, or
  embedding or search fail, or the search has no row to return.
\<close>

definition vector_path_empty ::
  "bool \<Rightarrow> bool \<Rightarrow> bool \<Rightarrow> (db_error + nat list) \<Rightarrow> bool \<Rightarrow> (nat \<Rightarrow> bool) \<Rightarrow> int \<Rightarrow> DB \<Rightarrow> bool" where
  "vector_path_empty milvus_present embedding_present embed_ok search fault_vfind touch_fails
       now db =
     (if milvus_present \<and> embedding_present \<and> embed_ok then
        (case snd (milvusVectorSearch search fault_vfind touch_fails now db) of
           Inl err \<Rightarrow> True
         | Inr results \<Rightarrow> results = [])
      else True)"

subsection \<open>An engine for the examples\<close>

text \<open>\<open>LIKE\<close> with the wildcards \<open>%\<close> and \<open>_\<close>, comparing runes exactly.\<close>

fun like_exact :: "gostring \<Rightarrow> gostring \<Rightarrow> bool" where
  "like_exact [] s = (s = [])"
| "like_exact (p # ps) [] = (p = 37 \<and> like_exact ps [])"
| "like_exact (p # ps) (c # cs) =
     (if p = 37 then like_exact ps (c # cs) \<or> like_exact (p # ps) cs
      else (p = 95 \<or> p = c) \<and> like_exact ps cs)"

definition memory_of :: "nat \<Rightarrow> int \<Rightarrow> string \<Rightarrow> real \<Rightarrow> int \<Rightarrow> Memory" where
  "memory_of i g text' importance updated =
     \<lparr>m_ID = i, m_CreatedAt = 1, m_UpdatedAt = updated, m_Type = runes ''group_fact'',
      m_GroupID = g, m_UserID = 0, m_Content = runes text', m_Importance = importance,
      m_AccessCount = 0\<rparr>"

definition db_cats :: DB where
  "db_cats = \<lparr>stickers = [], expressions = [],
     memories = [memory_of 1 1 ''a cat'' (1 / 2) 10, memory_of 2 1 ''dog'' (9 / 10) 11,
                 memory_of 3 1 ''cats!'' (4 / 5) 12, memory_of 4 2 ''cat'' 1 13],
     member_profiles = [], mood_state = []\<rparr>"

section \<open>Ring buffer: the bounded FIFO invariant\<close>

lemma mod_shift_inj_le:
  fixes c :: nat
  assumes "i \<le> j" "j < c" "(h + i) mod c = (h + j) mod c"
  shows "i = j"
proof -
  have "c dvd (h + j) - (h + i)"
    using assms by (metis mod_eq_dvd_iff_nat add_le_cancel_left)
  then have "c dvd j - i" by simp
  moreover have "j - i < c" using assms by arith
  ultimately have "j - i = 0" by (meson dvd_imp_le not_le zero_less_iff_neq_zero) 
  then show ?thesis using assms by simp
qed

lemma mod_shift_inj:
  fixes c :: nat
  assumes "i < c" "j < c" "(h + i) mod c = (h + j) mod c"
  shows "i = j"
proof (cases "i \<le> j")
  case True
  then show ?thesis using assms mod_shift_inj_le by blast
next
  case False
  then have "j \<le> i" by simp
  then have "j = i" using assms mod_shift_inj_le [of j i c h] by simp
  then show ?thesis by simp
qed

lemma rb_inv_New: "rb_inv (NewRingBuffer z c)"
  by (simp add: rb_inv_def NewRingBuffer_def Let_def)

lemma contents_New: "contents (NewRingBuffer z c) = []"
  by (simp add: contents_def NewRingBuffer_def Let_def)

lemma length_contents: "length (contents rb) = count rb"
  by (simp add: contents_def)

lemma Push_not_full:
  assumes inv: "rb_inv rb" and nf: "count rb < cap rb"
  shows "\<exists>rb'. Push rb x = Some rb' \<and> rb_inv rb' \<and> cap rb' = cap rb \<and>
           contents rb' = contents rb @ [x]"
proof -
  let ?c = "cap rb"
  let ?t = "(head rb + count rb) mod ?c"
  let ?rb' = "rb\<lparr>data := (data rb)[?t := x], tail := (?t + 1) mod ?c, count := count rb + 1\<rparr>"
  from inv have c0: "0 < ?c" and len: "length (data rb) = ?c" and hd: "head rb < ?c"
    and tl: "tail rb = ?t"
    by (simp_all add: rb_inv_def)
  have tlt: "?t < ?c" using c0 by simp
  have P: "Push rb x = Some ?rb'"
    using c0 len tl tlt nf by (simp add: Push_def Let_def)
  have I: "rb_inv ?rb'"
    using c0 len hd nf by (simp add: rb_inv_def mod_Suc_eq)
  have C: "contents ?rb' = contents rb @ [x]"
  proof (rule nth_equalityI)
    show "length (contents ?rb') = length (contents rb @ [x])"
      by (simp add: contents_def)
  next
    fix i assume "i < length (contents ?rb')"
    then have i: "i < count rb + 1" by (simp add: contents_def)
    show "contents ?rb' ! i = (contents rb @ [x]) ! i"
    proof (cases "i = count rb")
      case True
      then show ?thesis
        using tlt len by (simp add: contents_def nth_append del: upt_Suc)
    next
      case False
      with i have il: "i < count rb" by simp
      then have "(head rb + i) mod ?c \<noteq> ?t"
        using mod_shift_inj [of i ?c "count rb" "head rb"] nf by auto
      then show ?thesis
        using il by (simp add: contents_def nth_append del: upt_Suc)
    qed
  qed
  show ?thesis using P I C by auto
qed


lemma tl_map_upt: "tl (map f [0..<n]) = map (\<lambda>i. f (i + 1)) [0..<n - 1]"
proof (cases n)
  case 0
  then show ?thesis by simp
next
  case (Suc m)
  have "[0..<Suc m] = 0 # map Suc [0..<m]"
    by (simp add: upt_conv_Cons map_Suc_upt del: upt_Suc)
  then show ?thesis using Suc by (simp add: comp_def del: upt_Suc)
qed

lemma Push_full:
  assumes inv: "rb_inv rb" and full: "count rb = cap rb"
  shows "\<exists>rb'. Push rb x = Some rb' \<and> rb_inv rb' \<and> cap rb' = cap rb \<and>
           contents rb' = tl (contents rb) @ [x]"
proof -
  let ?c = "cap rb"
  let ?h = "head rb"
  let ?rb' = "rb\<lparr>data := (data rb)[?h := x], tail := (?h + 1) mod ?c, head := (?h + 1) mod ?c\<rparr>"
  from inv have c0: "0 < ?c" and len: "length (data rb) = ?c" and hd: "?h < ?c"
    and tl: "tail rb = (?h + count rb) mod ?c"
    by (simp_all add: rb_inv_def)
  have th: "tail rb = ?h" using tl full hd by simp
  have P: "Push rb x = Some ?rb'"
    using c0 len th hd full by (simp add: Push_def Let_def)
  have I: "rb_inv ?rb'"
    using c0 len hd full by (simp add: rb_inv_def mod_Suc_eq)
  have C: "contents ?rb' = tl (contents rb) @ [x]"
  proof (rule nth_equalityI)
    show "length (contents ?rb') = length (tl (contents rb) @ [x])"
      using c0 full by (simp add: contents_def tl_map_upt)
  next
    fix i assume "i < length (contents ?rb')"
    then have i: "i < ?c" using full by (simp add: contents_def)
    have idx: "((?h + 1) mod ?c + i) mod ?c = (?h + (i + 1)) mod ?c"
      by (simp add: mod_add_left_eq add.assoc)
    have L: "contents ?rb' ! i = (data rb)[?h := x] ! ((?h + (i + 1)) mod ?c)"
      using i full idx by (simp add: contents_def)
    have lt: "length (tl (contents rb)) = ?c - 1"
      using full by (simp add: contents_def)
    show "contents ?rb' ! i = (tl (contents rb) @ [x]) ! i"
    proof (cases "i + 1 = ?c")
      case True
      then have "(?h + (i + 1)) mod ?c = ?h" using hd by simp
      then have "contents ?rb' ! i = x" using L len hd by simp
      moreover have "i = length (tl (contents rb))" using True lt by simp
      then have "(tl (contents rb) @ [x]) ! i = x" by (simp only: nth_append_length)
      ultimately show ?thesis by simp
    next
      case False
      with i have il: "i + 1 < ?c" by simp
      have "(?h + (i + 1)) mod ?c \<noteq> (?h + 0) mod ?c"
        using mod_shift_inj [of "i + 1" ?c 0 ?h] il c0 by auto
      then have ne: "(?h + (i + 1)) mod ?c \<noteq> ?h" using hd by simp
      have "contents ?rb' ! i = data rb ! ((?h + (i + 1)) mod ?c)" using L ne by simp
      moreover have "i < length (tl (contents rb))" using il lt by simp
      then have "(tl (contents rb) @ [x]) ! i = tl (contents rb) ! i" by (simp only: nth_append if_True)
      moreover have "i < ?c - 1" using il by simp
      then have "tl (contents rb) ! i = data rb ! ((?h + (i + 1)) mod ?c)"
        using full by (simp add: contents_def tl_map_upt)
      ultimately show ?thesis by simp
    qed
  qed
  show ?thesis using P I C by auto
qed

lemma GetAll_loop_contents:
  assumes "rb_inv rb" "length res = count rb" "i \<le> count rb"
  shows "GetAll_loop rb i res =
           Some (take i res @ map (\<lambda>k. data rb ! ((head rb + k) mod cap rb)) [i..<count rb])"
  using assms
proof (induction rb i res rule: GetAll_loop.induct)
  case (1 rb i result)
  show ?case
  proof (cases "i < count rb")
    case False
    with "1.prems" show ?thesis by (simp add: GetAll_loop.simps)
  next
    case True
    from "1.prems" have c0: "0 < cap rb" and len: "length (data rb) = cap rb"
      by (simp_all add: rb_inv_def)
    let ?idx = "(head rb + i) mod cap rb"
    have idx: "?idx < length (data rb)" using c0 len by simp
    have il: "i < length result" using True "1.prems" by simp
    have step: "GetAll_loop rb i result = GetAll_loop rb (i + 1) (result[i := data rb ! ?idx])"
      using True c0 idx il by (subst GetAll_loop.simps) (simp add: Let_def)
    have IH: "GetAll_loop rb (i + 1) (result[i := data rb ! ?idx]) =
        Some (take (i + 1) (result[i := data rb ! ?idx]) @
              map (\<lambda>k. data rb ! ((head rb + k) mod cap rb)) [i + 1..<count rb])"
      using "1.IH" [OF True _ refl] c0 idx il "1.prems" True by simp
    have "take (i + 1) (result[i := data rb ! ?idx]) = take i result @ [data rb ! ?idx]"
      using il by (simp add: take_Suc_conv_app_nth)
    moreover have "[i..<count rb] = i # [i + 1..<count rb]"
      using True by (simp add: upt_conv_Cons)
    ultimately show ?thesis using step IH by simp
  qed
qed

lemma GetAll_contents:
  assumes "rb_inv rb"
  shows "GetAll z rb = Some (contents rb)"
proof (cases "count rb = 0")
  case True
  then show ?thesis by (simp add: GetAll_def contents_def)
next
  case False
  then show ?thesis
    using GetAll_loop_contents [OF assms, of "replicate (count rb) z" 0]
    by (simp add: GetAll_def contents_def)
qed

lemma push_all_contents:
  assumes "rb_inv rb"
  shows "\<exists>rb'. push_all rb xs = Some rb' \<and> rb_inv rb' \<and> cap rb' = cap rb \<and>
           contents rb' = drop (length (contents rb @ xs) - cap rb) (contents rb @ xs)"
  using assms
proof (induction xs arbitrary: rb)
  case Nil
  have "count rb \<le> cap rb" using Nil by (simp add: rb_inv_def)
  then show ?case using Nil by (simp add: length_contents)
next
  case (Cons x xs)
  have cle: "count rb \<le> cap rb" using Cons.prems by (simp add: rb_inv_def)
  have c0: "0 < cap rb" using Cons.prems by (simp add: rb_inv_def)
  obtain rb1 where P: "Push rb x = Some rb1" and I: "rb_inv rb1" and C: "cap rb1 = cap rb"
    and K: "contents rb1 = (if count rb < cap rb then contents rb @ [x] else tl (contents rb) @ [x])"
  proof (cases "count rb < cap rb")
    case True
    then show ?thesis using Push_not_full [OF Cons.prems True, of x] that by auto
  next
    case False
    then have "count rb = cap rb" using cle by simp
    then show ?thesis using Push_full [OF Cons.prems, of x] False that by auto
  qed
  from Cons.IH [OF I] obtain rb' where R: "push_all rb1 xs = Some rb'" and I': "rb_inv rb'"
    and C': "cap rb' = cap rb1"
    and K': "contents rb' = drop (length (contents rb1 @ xs) - cap rb1) (contents rb1 @ xs)"
    by blast
  have "drop (length (contents rb1 @ xs) - cap rb1) (contents rb1 @ xs) =
        drop (length (contents rb @ x # xs) - cap rb) (contents rb @ x # xs)"
  proof (cases "count rb < cap rb")
    case True
    then show ?thesis using K C by simp
  next
    case False
    then have full: "count rb = cap rb" using cle by simp
    then have ne: "contents rb \<noteq> []" using c0 length_contents [of rb] by auto
    then obtain y ys where ys: "contents rb = y # ys" by (cases "contents rb") auto
    have ly: "length ys + 1 = cap rb" using ys full length_contents [of rb] by simp
    show ?thesis using K C False ys ly by (simp add: Suc_diff_le)
  qed
  then show ?case using P R I' C' C K' by simp
qed


text \<open>
  Claim C2. For every sequence \<open>xs\<close> of \<open>Push\<close> calls on a buffer made by
  \<open>NewRingBuffer\<close> with capacity \<open>c\<close> (64 when \<open>c\<close> is not positive), no call
  panics, \<open>GetAll\<close> returns the suffix of \<open>xs\<close> of length \<open>min (length xs) cap\<close>, so at
  most \<open>cap\<close> items in push order, oldest first, and after \<open>cap + k\<close> pushes it returns
  exactly the last \<open>cap\<close> pushed items.
\<close>

theorem ring_buffer_bounded_fifo:
  "\<exists>rb. push_all (NewRingBuffer z c) xs = Some rb \<and>
        cap rb = (if c \<le> 0 then 64 else nat c) \<and>
        GetAll z rb = Some (drop (length xs - cap rb) xs) \<and>
        length (drop (length xs - cap rb) xs) \<le> cap rb \<and>
        Len rb = min (length xs) (cap rb) \<and>
        (\<forall>k. length xs = cap rb + k \<longrightarrow>
             GetAll z rb = Some (drop k xs) \<and> length (drop k xs) = cap rb)"
proof -
  let ?rb0 = "NewRingBuffer z c"
  have c0: "cap ?rb0 = (if c \<le> 0 then 64 else nat c)"
    by (simp add: NewRingBuffer_def Let_def)
  from push_all_contents [OF rb_inv_New, of z c xs]
  obtain rb where P: "push_all ?rb0 xs = Some rb" and I: "rb_inv rb" and C: "cap rb = cap ?rb0"
    and K: "contents rb = drop (length xs - cap ?rb0) xs"
    by (auto simp: contents_New)
  have G: "GetAll z rb = Some (drop (length xs - cap rb) xs)"
    using GetAll_contents [OF I, of z] K C by simp
  have L: "Len rb = min (length xs) (cap rb)"
    using length_contents [of rb] K C by (simp add: Len_def)
  have "\<forall>k. length xs = cap rb + k \<longrightarrow>
             GetAll z rb = Some (drop k xs) \<and> length (drop k xs) = cap rb"
    using G by auto
  then show ?thesis using P C c0 G L by auto
qed

theorem ring_buffer_bounded_fifo_witness:
  "\<exists>rb. push_all (NewRingBuffer (0::nat) 3) [1, 2, 3, 4, 5] = Some rb \<and>
        length [1, 2, 3, 4, 5::nat] = cap rb + 2 \<and> GetAll 0 rb = Some [3, 4, 5]"
proof -
  from ring_buffer_bounded_fifo [of "0::nat" 3 "[1, 2, 3, 4, 5]"]
  obtain rb where P: "push_all (NewRingBuffer (0::nat) 3) [1, 2, 3, 4, 5] = Some rb"
    and C: "cap rb = 3"
    and A: "\<forall>k. length [1, 2, 3, 4, 5::nat] = cap rb + k \<longrightarrow>
             GetAll 0 rb = Some (drop k [1, 2, 3, 4, 5]) \<and> length (drop k [1, 2, 3, 4, 5::nat]) = cap rb"
    by auto
  have "length [1, 2, 3, 4, 5::nat] = cap rb + 2" using C by simp
  with A have "GetAll 0 rb = Some (drop 2 [1, 2, 3, 4, 5])" by blast
  then show ?thesis using P C by simp
qed

section \<open>Effective speak probability: first matching rule\<close>

lemma time_rules_loop_find:
  "time_rules_loop b t g rules =
     (case List.find (rule_matches g t) rules of None \<Rightarrow> b | Some r \<Rightarrow> TalkValue r)"
proof (induction rules)
  case Nil
  then show ?case by simp
next
  case (Cons rule rules)
  show ?case
  proof (cases "GroupID rule \<noteq> 0 \<and> GroupID rule \<noteq> g")
    case True
    then have "\<not> rule_matches g t rule" by (auto simp: rule_matches_def)
    then show ?thesis using True Cons.IH by simp
  next
    case False
    note app = False
    show ?thesis
    proof (cases "Sscanf_time_range (TimeRange rule)")
      case None
      then have "\<not> rule_matches g t rule" by (simp add: rule_matches_def rule_range_def)
      then show ?thesis using app None Cons.IH by simp
    next
      case (Some q)
      obtain sh sm eh em where q: "q = (sh, sm, eh, em)" by (cases q) auto
      let ?s = "wrap64 (wrap64 (sh * 60) + sm)"
      let ?e = "wrap64 (wrap64 (eh * 60) + em)"
      have m: "rule_matches g t rule \<longleftrightarrow> range_contains ?s ?e t"
        using app Some q by (auto simp: rule_matches_def rule_range_def)
      show ?thesis
      proof (cases "range_contains ?s ?e t")
        case True
        then show ?thesis using app Some q m
          by (auto simp: range_contains_def Let_def split: if_splits)
      next
        case False
        then show ?thesis using app Some q m Cons.IH
          by (auto simp: range_contains_def Let_def split: if_splits)
      qed
    qed
  qed
qed

lemma scan_23_01: "Sscanf_time_range (runes ''23:00-01:00'') = Some (23, 0, 1, 0)"
  by (simp add: Sscanf_time_range_def runes_def scanInt_def isSpace_def isDigit_def
      accept_sign_def literal_def)

text \<open>
  Claim C7. \<open>getSpeakProbability\<close> returns the base \<open>chat.talk_frequency\<close> when time
  rules are disabled or no rule matches, and otherwise the \<open>talk_value\<close> of the first
  rule in list order whose group is the current group or 0 and whose range contains the
  current minute of the day, a range with start after end containing exactly the minutes
  \<open>t \<ge> start\<close> or \<open>t < end\<close>. With the single rule \<open>23:00-01:00\<close> the rule's value
  is returned at 23:30 and at 00:30, and the base value at 12:00.
\<close>

theorem getSpeakProbability_first_match:
  "getSpeakProbability cfg hour minute g =
     effective_speak_probability cfg (hour * 60 + minute) g \<and>
   (let cfg' = \<lparr>TalkFrequency = b, TypingSimulation = ts, TypingSpeed = sp,
                 EnableTimeRules = True,
                 TimeRules = [\<lparr>TimeRange = runes ''23:00-01:00'', GroupID = 0, TalkValue = v\<rparr>]\<rparr>
    in getSpeakProbability cfg' 23 30 g = v \<and> getSpeakProbability cfg' 0 30 g = v \<and>
       getSpeakProbability cfg' 12 0 g = b)"
proof -
  have A: "getSpeakProbability cfg hour minute g =
     effective_speak_probability cfg (hour * 60 + minute) g"
  proof (cases "TimeRules cfg")
    case Nil
    then show ?thesis
      by (simp add: getSpeakProbability_def effective_speak_probability_def)
  next
    case (Cons r rs)
    then show ?thesis
      by (simp add: getSpeakProbability_def effective_speak_probability_def Let_def
          time_rules_loop_find del: time_rules_loop.simps)
  qed
  have B: "(let cfg' = \<lparr>TalkFrequency = b, TypingSimulation = ts, TypingSpeed = sp,
                 EnableTimeRules = True,
                 TimeRules = [\<lparr>TimeRange = runes ''23:00-01:00'', GroupID = 0, TalkValue = v\<rparr>]\<rparr>
    in getSpeakProbability cfg' 23 30 g = v \<and> getSpeakProbability cfg' 0 30 g = v \<and>
       getSpeakProbability cfg' 12 0 g = b)"
    by (simp add: getSpeakProbability_def Let_def scan_23_01 wrap64_def)
  show ?thesis using A B by blast
qed

theorem getSpeakProbability_first_match_witness:
  "getSpeakProbability
     \<lparr>TalkFrequency = 1 / 10, TypingSimulation = False, TypingSpeed = 6, EnableTimeRules = True,
      TimeRules = [\<lparr>TimeRange = runes ''08:00-12:00'', GroupID = 7, TalkValue = 1 / 2\<rparr>,
                   \<lparr>TimeRange = runes ''night'', GroupID = 0, TalkValue = 1\<rparr>,
                   \<lparr>TimeRange = runes ''23:00-01:00'', GroupID = 0, TalkValue = 9 / 10\<rparr>,
                   \<lparr>TimeRange = runes ''00:00-23:59'', GroupID = 5, TalkValue = 3 / 10\<rparr>]\<rparr>
     0 30 5 = 9 / 10"
  using getSpeakProbability_first_match [of
     "\<lparr>TalkFrequency = 1 / 10, TypingSimulation = False, TypingSpeed = 6, EnableTimeRules = True,
      TimeRules = [\<lparr>TimeRange = runes ''08:00-12:00'', GroupID = 7, TalkValue = 1 / 2\<rparr>,
                   \<lparr>TimeRange = runes ''night'', GroupID = 0, TalkValue = 1\<rparr>,
                   \<lparr>TimeRange = runes ''23:00-01:00'', GroupID = 0, TalkValue = 9 / 10\<rparr>,
                   \<lparr>TimeRange = runes ''00:00-23:59'', GroupID = 5, TalkValue = 3 / 10\<rparr>]\<rparr>"
     0 30 5]
  by (simp add: effective_speak_probability_def rule_matches_def rule_range_def
      range_contains_def scan_23_01 wrap64_def Sscanf_time_range_def runes_def scanInt_def
      isSpace_def isDigit_def accept_sign_def literal_def Let_def)

section \<open>Rounding to binary64 is monotone and keeps the numbers it can hold\<close>

lemma pow2_powr: "pow2 k = 2 powr (real_of_int k)"
proof (cases "0 \<le> k")
  case True
  then show ?thesis by (simp add: pow2_def powr_real_of_int)
next
  case False
  then show ?thesis by (simp add: pow2_def powr_real_of_int inverse_eq_divide)
qed

lemma pow2_pos: "0 < pow2 k"
  by (simp add: pow2_powr)

lemma pow2_mono: "j \<le> k \<Longrightarrow> pow2 j \<le> pow2 k"
  by (simp add: pow2_powr)

lemma pow2_add: "pow2 (j + k) = pow2 j * pow2 k"
  by (simp add: pow2_powr powr_add)

lemma pow2_nat: "0 \<le> k \<Longrightarrow> pow2 k = of_int (2 ^ nat k)"
  by (simp add: pow2_def)

lemma rhe_bounds: "of_int (round_half_even z) \<le> z + 1 / 2 \<and> z - 1 / 2 \<le> of_int (round_half_even z)"
  unfolding round_half_even_def Let_def
  by (auto; linarith)

lemma rhe_of_int: "round_half_even (of_int n) = n"
  by (simp add: round_half_even_def)

lemma rhe_le_int: "z \<le> of_int n \<Longrightarrow> round_half_even z \<le> n"
proof -
  assume a: "z \<le> of_int n"
  then have f: "\<lfloor>z\<rfloor> \<le> n" by (simp add: floor_le_iff)
  show ?thesis
  proof (cases "\<lfloor>z\<rfloor> = n")
    case True
    then have "z = of_int n" using a by linarith
    then show ?thesis by (simp add: rhe_of_int)
  next
    case False
    then have "\<lfloor>z\<rfloor> + 1 \<le> n" using f by simp
    then show ?thesis unfolding round_half_even_def Let_def by auto
  qed
qed

lemma rhe_ge_int: "of_int n \<le> z \<Longrightarrow> n \<le> round_half_even z"
proof -
  assume "of_int n \<le> z"
  then have "n \<le> \<lfloor>z\<rfloor>" by (simp add: le_floor_iff)
  then show ?thesis unfolding round_half_even_def Let_def by auto
qed

lemma rhe_mono: "z \<le> w \<Longrightarrow> round_half_even z \<le> round_half_even w"
proof -
  assume a: "z \<le> w"
  have fm: "\<lfloor>z\<rfloor> \<le> \<lfloor>w\<rfloor>" using a by (rule floor_mono)
  show ?thesis
  proof (cases "\<lfloor>z\<rfloor> = \<lfloor>w\<rfloor>")
    case True
    then have "z - of_int \<lfloor>z\<rfloor> \<le> w - of_int \<lfloor>w\<rfloor>" using a by simp
    then show ?thesis using True unfolding round_half_even_def Let_def by auto
  next
    case False
    then have "\<lfloor>z\<rfloor> + 1 \<le> \<lfloor>w\<rfloor>" using fm by simp
    moreover have "round_half_even z \<le> \<lfloor>z\<rfloor> + 1" unfolding round_half_even_def Let_def by auto
    moreover have "\<lfloor>w\<rfloor> \<le> round_half_even w" unfolding round_half_even_def Let_def by auto
    ultimately show ?thesis by linarith
  qed
qed


lemma quantum_expo: "quantum x = pow2 (expo x - 52)"
  by (simp add: quantum_def expo_def)

lemma quantum_pos: "0 < quantum x"
  by (simp add: quantum_expo pow2_pos)

lemma expo_bounds:
  assumes "pow2 (- 1022) \<le> x"
  shows "pow2 (expo x) \<le> x \<and> x < pow2 (expo x + 1)"
proof -
  have x0: "0 < x" using assms pow2_pos [of "- 1022"] by linarith
  have "\<lfloor>log 2 x\<rfloor> = expo x" using assms by (simp add: expo_def)
  then have "2 powr (real_of_int (expo x)) \<le> x \<and> x < 2 powr (real_of_int (expo x) + 1)"
    using floor_log_eq_powr_iff [of x 2 "expo x"] x0 by simp
  then show ?thesis by (simp add: pow2_powr)
qed

lemma expo_eqI:
  assumes "- 1022 \<le> k" and "pow2 k \<le> x" and "x < pow2 (k + 1)"
  shows "expo x = k"
proof -
  have x0: "0 < x" using assms(2) pow2_pos [of k] by linarith
  have "pow2 (- 1022) \<le> x" using assms(1,2) pow2_mono [of "- 1022" k] by linarith
  then have "expo x = \<lfloor>log 2 x\<rfloor>" by (simp add: expo_def)
  moreover have "\<lfloor>log 2 x\<rfloor> = k"
    using floor_log_eq_powr_iff [of x 2 k] x0 assms(2,3) by (simp add: pow2_powr)
  ultimately show ?thesis by simp
qed

lemma expo_ge: "- 1022 \<le> expo x"
proof (cases "x < pow2 (- 1022)")
  case True
  then show ?thesis by (simp add: expo_def)
next
  case False
  then have b: "pow2 (- 1022) \<le> x" by simp
  from expo_bounds [OF b] have "x < pow2 (expo x + 1)" by simp
  then have "pow2 (- 1022) < pow2 (expo x + 1)" using b by linarith
  then have "\<not> pow2 (expo x + 1) \<le> pow2 (- 1022)" by simp
  then have "\<not> expo x + 1 \<le> - 1022" using pow2_mono by blast
  then show ?thesis by simp
qed

lemma expo_mono:
  assumes "x \<le> y"
  shows "expo x \<le> expo y"
proof (cases "x < pow2 (- 1022)")
  case True
  then have "expo x = - 1022" by (simp add: expo_def)
  then show ?thesis using expo_ge [of y] by simp
next
  case False
  then have bx: "pow2 (- 1022) \<le> x" by simp
  then have by': "pow2 (- 1022) \<le> y" using assms by linarith
  from expo_bounds [OF bx] expo_bounds [OF by']
  have "pow2 (expo x) < pow2 (expo y + 1)" using assms by linarith
  then have "\<not> pow2 (expo y + 1) \<le> pow2 (expo x)" by simp
  then have "\<not> expo y + 1 \<le> expo x" using pow2_mono by blast
  then show ?thesis by simp
qed

lemma below_binade:
  assumes "expo x < expo y"
  shows "x \<le> pow2 (expo y)"
proof (cases "x < pow2 (- 1022)")
  case True
  have "pow2 (- 1022) \<le> pow2 (expo y)" using expo_ge [of y] by (rule pow2_mono)
  then show ?thesis using True by linarith
next
  case False
  then have "x < pow2 (expo x + 1)" using expo_bounds [of x] by simp
  moreover have "pow2 (expo x + 1) \<le> pow2 (expo y)" using assms by (intro pow2_mono) simp
  ultimately show ?thesis by linarith
qed

lemma fl_mag_le_multiple:
  assumes "x \<le> of_int m * quantum x"
  shows "fl_mag x \<le> of_int m * quantum x"
proof -
  have "x / quantum x \<le> of_int m" using assms quantum_pos [of x] by (simp add: pos_divide_le_eq)
  then have "round_half_even (x / quantum x) \<le> m" by (rule rhe_le_int)
  then have "(of_int (round_half_even (x / quantum x)) :: real) \<le> of_int m" by simp
  then show ?thesis
    unfolding fl_mag_def using quantum_pos [of x] by (simp add: mult_right_mono)
qed

lemma fl_mag_ge_multiple:
  assumes "of_int m * quantum x \<le> x"
  shows "of_int m * quantum x \<le> fl_mag x"
proof -
  have "of_int m \<le> x / quantum x" using assms quantum_pos [of x] by (simp add: pos_le_divide_eq)
  then have "m \<le> round_half_even (x / quantum x)" by (rule rhe_ge_int)
  then have "(of_int m :: real) \<le> of_int (round_half_even (x / quantum x))" by simp
  then show ?thesis
    unfolding fl_mag_def using quantum_pos [of x] by (simp add: mult_right_mono)
qed

lemma fl_mag_mono:
  assumes "x \<le> y"
  shows "fl_mag x \<le> fl_mag y"
proof (cases "expo x = expo y")
  case True
  then have q: "quantum x = quantum y" by (simp add: quantum_expo)
  have "x / quantum y \<le> y / quantum y"
    using assms quantum_pos [of y] by (simp add: divide_right_mono)
  then have "round_half_even (x / quantum y) \<le> round_half_even (y / quantum y)" by (rule rhe_mono)
  then have "(of_int (round_half_even (x / quantum y)) :: real) \<le> of_int (round_half_even (y / quantum y))"
    by simp
  then show ?thesis
    unfolding fl_mag_def q using quantum_pos [of y] by (simp add: mult_right_mono)
next
  case False
  then have lt: "expo x < expo y" using expo_mono [OF assms] by simp
  let ?B = "pow2 (expo y)"
  have xB: "x \<le> ?B" using lt by (rule below_binade)
  have yB: "?B \<le> y"
  proof -
    have "\<not> y < pow2 (- 1022)" using lt expo_ge [of x] by (auto simp: expo_def)
    then show ?thesis using expo_bounds [of y] by simp
  qed
  have Bx: "?B = of_int (2 ^ nat (expo y - expo x + 52)) * quantum x"
  proof -
    have "?B = pow2 ((expo y - expo x + 52) + (expo x - 52))" by simp
    also have "\<dots> = pow2 (expo y - expo x + 52) * pow2 (expo x - 52)" by (rule pow2_add)
    also have "pow2 (expo y - expo x + 52) = of_int (2 ^ nat (expo y - expo x + 52))"
      using lt by (intro pow2_nat) simp
    finally show ?thesis by (simp add: quantum_expo)
  qed
  have By: "?B = of_int (2 ^ 52) * quantum y"
  proof -
    have "?B = pow2 (52 + (expo y - 52))" by simp
    also have "\<dots> = pow2 52 * pow2 (expo y - 52)" by (rule pow2_add)
    finally show ?thesis by (simp add: quantum_expo pow2_def)
  qed
  have "fl_mag x \<le> ?B" using fl_mag_le_multiple [of x "2 ^ nat (expo y - expo x + 52)"] xB Bx by simp
  moreover have "?B \<le> fl_mag y" using fl_mag_ge_multiple [of "2 ^ 52" y] yB By by simp
  ultimately show ?thesis by linarith
qed

lemma fl_mag_zero: "fl_mag 0 = 0"
  by (simp add: fl_mag_def round_half_even_def)

lemma fl_mag_nonneg: "0 \<le> x \<Longrightarrow> 0 \<le> fl_mag x"
  using fl_mag_mono [of 0 x] by (simp add: fl_mag_zero)

lemma fl_zero: "fl 0 = 0"
  by (simp add: fl_def fl_mag_zero)

lemma fl_mono:
  assumes "x \<le> y"
  shows "fl x \<le> fl y"
proof -
  consider "x < 0" "y < 0" | "x < 0" "0 \<le> y" | "0 \<le> x" "0 \<le> y"
    using assms by linarith
  then show ?thesis
  proof cases
    case 1
    then show ?thesis using fl_mag_mono [of "- y" "- x"] assms by (simp add: fl_def)
  next
    case 2
    then show ?thesis using fl_mag_nonneg [of "- x"] fl_mag_nonneg [of y] by (simp add: fl_def)
  next
    case 3
    then show ?thesis using fl_mag_mono [OF assms] by (simp add: fl_def)
  qed
qed

lemma fl_nonneg: "0 \<le> x \<Longrightarrow> 0 \<le> fl x"
  using fl_mono [of 0 x] by (simp add: fl_zero)

lemma fl_nonpos: "x \<le> 0 \<Longrightarrow> fl x \<le> 0"
  using fl_mono [of x 0] by (simp add: fl_zero)

lemma fl_mag_exact:
  assumes "x = of_int m * quantum x"
  shows "fl_mag x = x"
proof -
  have "x / quantum x = of_int m" using assms quantum_pos [of x]
    by (metis nonzero_mult_div_cancel_right less_irrefl)
  then show ?thesis using assms by (simp add: fl_mag_def rhe_of_int)
qed

lemma fl_pow2: "- 1022 \<le> k \<Longrightarrow> fl (pow2 k) = pow2 k"
proof -
  assume k: "- 1022 \<le> k"
  have "pow2 k < pow2 (k + 1)" by (simp add: pow2_powr)
  then have e: "expo (pow2 k) = k" using k by (intro expo_eqI) simp_all
  have "pow2 k = pow2 (52 + (k - 52))" by simp
  also have "\<dots> = pow2 52 * pow2 (k - 52)" by (rule pow2_add)
  also have "pow2 52 = of_int (2 ^ 52)" by (simp add: pow2_def)
  also have "pow2 (k - 52) = quantum (pow2 k)" by (simp add: quantum_expo e)
  finally have "pow2 k = of_int (2 ^ 52) * quantum (pow2 k)" .
  then have "fl_mag (pow2 k) = pow2 k" by (rule fl_mag_exact)
  then show ?thesis using pow2_pos [of k] by (simp add: fl_def)
qed

lemma fl_one: "fl 1 = 1"
  using fl_pow2 [of 0] by (simp add: pow2_def)

lemma fl_half: "fl (1 / 2) = 1 / 2"
  using fl_pow2 [of "- 1"] by (simp add: pow2_def)

section \<open>Stickers: saving is idempotent in the file hash\<close>

lemma min_by_id_None: "min_by_id key rs = None \<longleftrightarrow> rs = []"
  by (induction rs) (auto split: option.splits)

lemma min_by_id_mem: "min_by_id key rs = Some r \<Longrightarrow> r \<in> set rs"
  by (induction rs arbitrary: r) (auto split: option.splits if_splits)

lemma First_found:
  "list_ex cond rows \<Longrightarrow> \<exists>r. First False key cond rows = Inr r \<and> r \<in> set rows \<and> cond r"
proof -
  assume "list_ex cond rows"
  then have "filter cond rows \<noteq> []" by (auto simp: list_ex_iff filter_empty_conv)
  then obtain r where r: "min_by_id key (filter cond rows) = Some r"
    using min_by_id_None [of key "filter cond rows"] by (cases "min_by_id key (filter cond rows)") auto
  then have "r \<in> set (filter cond rows)" by (rule min_by_id_mem)
  then show ?thesis using r by (auto simp: First_def)
qed

lemma First_not_found:
  "\<not> list_ex cond rows \<Longrightarrow> First False key cond rows = Inl ErrRecordNotFound"
proof -
  assume "\<not> list_ex cond rows"
  then have "filter cond rows = []" by (auto simp: list_ex_iff filter_empty_conv)
  then show ?thesis by (simp add: First_def)
qed

text \<open>
  Claim C9. When no statement of the engine fails: \<open>SaveSticker\<close> with a
  \<open>file_hash\<close> that a row of the table already has returns \<open>duplicate = true\<close> and
  leaves the store as it was, so the number of stickers is unchanged; with a
  \<open>file_hash\<close> no row has (and the zero primary key of a new record) it appends exactly
  one row, carrying that hash, and returns \<open>duplicate = false\<close>.
\<close>

theorem SaveSticker_hash_idempotent:
  "(list_ex (\<lambda>r. eqc (s_FileHash r) (s_FileHash s)) (stickers db) \<longrightarrow>
      SaveSticker False fault_create eqc now db s = (db, Inr True)) \<and>
   (\<not> list_ex (\<lambda>r. eqc (s_FileHash r) (s_FileHash s)) (stickers db) \<and> s_ID s = 0 \<longrightarrow>
      (\<exists>row. SaveSticker False False eqc now db s =
                 (db\<lparr>stickers := stickers db @ [row]\<rparr>, Inr False) \<and>
              s_FileHash row = s_FileHash s \<and>
              length (stickers db @ [row]) = length (stickers db) + 1))"
proof (intro conjI impI)
  assume "list_ex (\<lambda>r. eqc (s_FileHash r) (s_FileHash s)) (stickers db)"
  from First_found [OF this, of s_ID]
  show "SaveSticker False fault_create eqc now db s = (db, Inr True)"
    by (auto simp: SaveSticker_def)
next
  assume a: "\<not> list_ex (\<lambda>r. eqc (s_FileHash r) (s_FileHash s)) (stickers db) \<and> s_ID s = 0"
  then have nf: "First False s_ID (\<lambda>r. eqc (s_FileHash r) (s_FileHash s)) (stickers db)
                  = Inl ErrRecordNotFound"
    using First_not_found by blast
  let ?row = "s\<lparr>s_ID := next_id (map s_ID (stickers db)),
               s_CreatedAt := (if s_CreatedAt s = 0 then now else s_CreatedAt s),
               s_UpdatedAt := (if s_UpdatedAt s = 0 then now else s_UpdatedAt s)\<rparr>"
  have "Create_sticker False eqc now db s = Inr (db\<lparr>stickers := stickers db @ [?row]\<rparr>)"
    using a by (simp add: Create_sticker_def Let_def)
  then have "SaveSticker False False eqc now db s = (db\<lparr>stickers := stickers db @ [?row]\<rparr>, Inr False)"
    using nf by (simp add: SaveSticker_def)
  then show "\<exists>row. SaveSticker False False eqc now db s =
                 (db\<lparr>stickers := stickers db @ [row]\<rparr>, Inr False) \<and>
              s_FileHash row = s_FileHash s \<and>
              length (stickers db @ [row]) = length (stickers db) + 1"
    by (intro exI [of _ ?row]) simp
qed

theorem SaveSticker_hash_idempotent_witness:
  "list_ex (\<lambda>r. s_FileHash r = runes ''abc'') (stickers db0) \<and>
   SaveSticker False False (=) 9 db0 (sticker0\<lparr>s_ID := 0, s_FileName := runes ''b.png''\<rparr>)
     = (db0, Inr True) \<and>
   \<not> list_ex (\<lambda>r. s_FileHash r = runes ''xyz'') (stickers db0) \<and>
   (\<exists>row. SaveSticker False False (=) 9 db0 (sticker0\<lparr>s_ID := 0, s_FileHash := runes ''xyz''\<rparr>)
            = (db0\<lparr>stickers := stickers db0 @ [row]\<rparr>, Inr False))"
proof -
  have p: "list_ex (\<lambda>r. s_FileHash r = runes ''abc'') (stickers db0)"
    by (simp add: db0_def sticker0_def)
  have q: "\<not> list_ex (\<lambda>r. s_FileHash r = runes ''xyz'') (stickers db0)"
    by (simp add: db0_def sticker0_def runes_def)
  from SaveSticker_hash_idempotent [of "(=)" "sticker0\<lparr>s_ID := 0, s_FileName := runes ''b.png''\<rparr>"
      db0 False 9] p
  have A: "SaveSticker False False (=) 9 db0 (sticker0\<lparr>s_ID := 0, s_FileName := runes ''b.png''\<rparr>)
     = (db0, Inr True)"
    by (simp add: sticker0_def)
  from SaveSticker_hash_idempotent [of "(=)" "sticker0\<lparr>s_ID := 0, s_FileHash := runes ''xyz''\<rparr>"
      db0 False 9] q
  have B: "\<exists>row. SaveSticker False False (=) 9 db0 (sticker0\<lparr>s_ID := 0, s_FileHash := runes ''xyz''\<rparr>)
            = (db0\<lparr>stickers := stickers db0 @ [row]\<rparr>, Inr False)"
    by auto
  show ?thesis using p q A B by blast
qed

section \<open>Expressions: what the flag of SaveExpression reports\<close>

text \<open>
  The claim that a backfill returns \<open>created = false\<close> fails: the table holds a row
  with the key of the argument and empty examples, the argument brings examples, and the
  call fills them in and returns \<open>true\<close>.
\<close>

theorem SaveExpression_backfill_counterexample:
  "list_ex (same_expression (=) (expression0\<lparr>e_ID := 0, e_Examples := runes ''hi''\<rparr>))
     (expressions db0) \<and>
   e_Examples expression0 = [] \<and>
   SaveExpression False False False (=) 9 db0
       (Some (expression0\<lparr>e_ID := 0, e_Examples := runes ''hi''\<rparr>))
     = (db0\<lparr>expressions := [expression0\<lparr>e_Examples := runes ''hi'', e_UpdatedAt := 9\<rparr>]\<rparr>,
        Inr True)"
  by (simp add: SaveExpression_def First_def Updates_examples_def same_expression_def
      db0_def expression0_def runes_def Let_def)

text \<open>
  Claim C4, amended. For an expression with a non-zero \<open>group_id\<close> and non-empty
  \<open>situation\<close> and \<open>style\<close>, when no statement of the engine fails: if a row with the
  same key exists, take the one with the least primary key; when its examples are empty
  and the argument's are not, the call writes the argument's examples into that row,
  inserts nothing and returns \<open>true\<close>; otherwise it changes nothing and returns
  \<open>false\<close>. If no row has the key (and the argument is a new record), the call appends
  the row and returns \<open>true\<close>.
\<close>

theorem SaveExpression_created_flag:
  assumes "e_GroupID x \<noteq> 0" and "e_Situation x \<noteq> []" and "e_Style x \<noteq> []"
  shows
   "(list_ex (same_expression eqc x) (expressions db) \<longrightarrow>
      (\<exists>r. First False e_ID (same_expression eqc x) (expressions db) = Inr r \<and>
           r \<in> set (expressions db) \<and> same_expression eqc x r \<and>
           (if e_Examples r = [] \<and> e_Examples x \<noteq> []
            then SaveExpression False False fault_create eqc now db (Some x) =
                   (db\<lparr>expressions :=
                        map (\<lambda>r'. if e_ID r' = e_ID r
                                   then r'\<lparr>e_Examples := e_Examples x, e_UpdatedAt := now\<rparr>
                                   else r')
                          (expressions db)\<rparr>, Inr True)
            else SaveExpression False fault_updates fault_create eqc now db (Some x) =
                   (db, Inr False)))) \<and>
    (\<not> list_ex (same_expression eqc x) (expressions db) \<and> e_ID x = 0 \<longrightarrow>
      (\<exists>row. SaveExpression False fault_updates False eqc now db (Some x) =
                 (db\<lparr>expressions := expressions db @ [row]\<rparr>, Inr True) \<and>
              e_GroupID row = e_GroupID x \<and> e_Situation row = e_Situation x \<and>
              e_Style row = e_Style x \<and> e_Examples row = e_Examples x))"
proof (intro conjI impI)
  have eta: "(\<lambda>r. e_GroupID r = e_GroupID x \<and> eqc (e_Situation r) (e_Situation x) \<and>
                  eqc (e_Style r) (e_Style x)) = same_expression eqc x"
    by (auto simp: same_expression_def fun_eq_iff)
  {
    assume "list_ex (same_expression eqc x) (expressions db)"
    from First_found [OF this, of e_ID]
    obtain r where r: "First False e_ID (same_expression eqc x) (expressions db) = Inr r"
      and m: "r \<in> set (expressions db)" "same_expression eqc x r" by blast
    have "if e_Examples r = [] \<and> e_Examples x \<noteq> []
            then SaveExpression False False fault_create eqc now db (Some x) =
                   (db\<lparr>expressions :=
                        map (\<lambda>r'. if e_ID r' = e_ID r
                                   then r'\<lparr>e_Examples := e_Examples x, e_UpdatedAt := now\<rparr>
                                   else r')
                          (expressions db)\<rparr>, Inr True)
            else SaveExpression False fault_updates fault_create eqc now db (Some x) =
                   (db, Inr False)"
      using assms r by (simp add: SaveExpression_def eta Updates_examples_def Let_def)
    then show "\<exists>r. First False e_ID (same_expression eqc x) (expressions db) = Inr r \<and>
           r \<in> set (expressions db) \<and> same_expression eqc x r \<and>
           (if e_Examples r = [] \<and> e_Examples x \<noteq> []
            then SaveExpression False False fault_create eqc now db (Some x) =
                   (db\<lparr>expressions :=
                        map (\<lambda>r'. if e_ID r' = e_ID r
                                   then r'\<lparr>e_Examples := e_Examples x, e_UpdatedAt := now\<rparr>
                                   else r')
                          (expressions db)\<rparr>, Inr True)
            else SaveExpression False fault_updates fault_create eqc now db (Some x) =
                   (db, Inr False))"
      using r m by blast
  }
  {
    assume a: "\<not> list_ex (same_expression eqc x) (expressions db) \<and> e_ID x = 0"
    then have nf: "First False e_ID (same_expression eqc x) (expressions db) = Inl ErrRecordNotFound"
      using First_not_found by blast
    let ?row = "x\<lparr>e_ID := next_id (map e_ID (expressions db)),
                 e_CreatedAt := (if e_CreatedAt x = 0 then now else e_CreatedAt x),
                 e_UpdatedAt := (if e_UpdatedAt x = 0 then now else e_UpdatedAt x)\<rparr>"
    have "Create_expression False now db x = Inr (db\<lparr>expressions := expressions db @ [?row]\<rparr>)"
      using a by (simp add: Create_expression_def Let_def)
    then have "SaveExpression False fault_updates False eqc now db (Some x) =
                 (db\<lparr>expressions := expressions db @ [?row]\<rparr>, Inr True)"
      using assms nf by (simp add: SaveExpression_def eta Let_def)
    then show "\<exists>row. SaveExpression False fault_updates False eqc now db (Some x) =
                 (db\<lparr>expressions := expressions db @ [row]\<rparr>, Inr True) \<and>
              e_GroupID row = e_GroupID x \<and> e_Situation row = e_Situation x \<and>
              e_Style row = e_Style x \<and> e_Examples row = e_Examples x"
      by (intro exI [of _ ?row]) simp
  }
qed


theorem SaveExpression_created_flag_witness:
  "e_GroupID (expression0\<lparr>e_ID := 0, e_Examples := runes ''hi''\<rparr>) \<noteq> 0 \<and>
   e_Situation (expression0\<lparr>e_ID := 0, e_Examples := runes ''hi''\<rparr>) \<noteq> [] \<and>
   e_Style (expression0\<lparr>e_ID := 0, e_Examples := runes ''hi''\<rparr>) \<noteq> [] \<and>
   list_ex (same_expression (=) (expression0\<lparr>e_ID := 0, e_Examples := runes ''hi''\<rparr>))
     (expressions db0) \<and>
   SaveExpression False False False (=) 9 db0
       (Some (expression0\<lparr>e_ID := 0, e_Examples := runes ''hi''\<rparr>))
     = (db0\<lparr>expressions := [expression0\<lparr>e_Examples := runes ''hi'', e_UpdatedAt := 9\<rparr>]\<rparr>,
        Inr True)"
proof -
  let ?x = "expression0\<lparr>e_ID := 0, e_Examples := runes ''hi''\<rparr>"
  have k: "e_GroupID ?x \<noteq> 0" "e_Situation ?x \<noteq> []" "e_Style ?x \<noteq> []"
    by (simp_all add: expression0_def runes_def)
  have p: "list_ex (same_expression (=) ?x) (expressions db0)"
    by (simp add: same_expression_def db0_def expression0_def)
  from SaveExpression_created_flag [OF k, of "(=)" db0 False 9 False] p
  obtain r where r: "r \<in> set (expressions db0)"
    and c: "if e_Examples r = [] \<and> e_Examples ?x \<noteq> []
            then SaveExpression False False False (=) 9 db0 (Some ?x) =
                   (db0\<lparr>expressions :=
                        map (\<lambda>r'. if e_ID r' = e_ID r
                                   then r'\<lparr>e_Examples := e_Examples ?x, e_UpdatedAt := 9\<rparr>
                                   else r')
                          (expressions db0)\<rparr>, Inr True)
            else SaveExpression False False False (=) 9 db0 (Some ?x) = (db0, Inr False)"
    by blast
  from r have r0: "r = expression0" by (simp add: db0_def)
  have "SaveExpression False False False (=) 9 db0 (Some ?x)
     = (db0\<lparr>expressions := [expression0\<lparr>e_Examples := runes ''hi'', e_UpdatedAt := 9\<rparr>]\<rparr>,
        Inr True)"
    using c unfolding r0 by (simp add: db0_def expression0_def runes_def)
  then show ?thesis using k p by blast
qed

section \<open>The think lock serializes the episodes of a group\<close>

lemma lock_inv_init: "lock_inv agent0"
  by (simp add: lock_inv_def agent0_def is_processing_def episodes_def)

lemma lock_inv_enter:
  assumes "lock_inv a"
  shows "lock_inv (fst (think_enter a t g))"
proof (cases "is_processing a g")
  case True
  then show ?thesis using assms by (simp add: think_enter_def)
next
  case False
  then have e: "episodes a g = []" using assms by (simp add: lock_inv_def)
  show ?thesis
    unfolding lock_inv_def
  proof (intro allI)
    fix g'
    show "(is_processing (fst (think_enter a t g)) g' \<longleftrightarrow> episodes (fst (think_enter a t g)) g' \<noteq> []) \<and>
          length (episodes (fst (think_enter a t g)) g') \<le> 1"
    proof (cases "g' = g")
      case True
      then show ?thesis using False e
        by (simp add: think_enter_def is_processing_def episodes_def)
    next
      case ne: False
      have "is_processing (fst (think_enter a t g)) g' = is_processing a g'"
        using False ne by (simp add: think_enter_def is_processing_def)
      moreover have "episodes (fst (think_enter a t g)) g' = episodes a g'"
        using False ne by (simp add: think_enter_def episodes_def)
      ultimately show ?thesis using assms by (simp add: lock_inv_def)
    qed
  qed
qed

lemma lock_inv_work: "lock_inv a \<Longrightarrow> keeps_lock a a' \<Longrightarrow> lock_inv a'"
  by (simp add: lock_inv_def keeps_lock_def is_processing_def episodes_def)

lemma lock_inv_generate: "lock_inv a \<Longrightarrow> lock_inv (think_generate a t g)"
  by (simp add: lock_inv_def think_generate_def is_processing_def episodes_def)

lemma lock_inv_exit:
  assumes "lock_inv a" and "(t, g) \<in> set (in_flight a)"
  shows "lock_inv (think_exit a t g)"
proof -
  have mem: "(t, g) \<in> set (episodes a g)" using assms(2) by (simp add: episodes_def)
  have "length (episodes a g) \<le> 1" using assms(1) by (simp add: lock_inv_def)
  then have eg: "episodes a g = [(t, g)]"
    using mem by (cases "episodes a g") auto
  have after: "episodes (think_exit a t g) g = []"
  proof -
    have "episodes (think_exit a t g) g = removeAll (t, g) (episodes a g)"
      by (simp add: think_exit_def episodes_def removeAll_filter_not_eq) (metis (mono_tags, lifting) filter_cong)
    then show ?thesis using eg by simp
  qed
  show ?thesis
    unfolding lock_inv_def
  proof (intro allI)
    fix g'
    show "(is_processing (think_exit a t g) g' \<longleftrightarrow> episodes (think_exit a t g) g' \<noteq> []) \<and>
          length (episodes (think_exit a t g) g') \<le> 1"
    proof (cases "g' = g")
      case True
      then show ?thesis using after by (simp add: think_exit_def is_processing_def)
    next
      case ne: False
      have "is_processing (think_exit a t g) g' = is_processing a g'"
        using ne by (simp add: think_exit_def is_processing_def)
      moreover have "episodes (think_exit a t g) g' = episodes a g'"
        using ne by (auto simp: think_exit_def episodes_def removeAll_filter_not_eq intro: filter_cong)
      ultimately show ?thesis using assms(1) by (simp add: lock_inv_def)
    qed
  qed
qed

lemma lock_one:
  assumes "lock_inv a" and "(t, g) \<in> set (in_flight a)" and "(t', g) \<in> set (in_flight a)"
  shows "t' = t"
proof -
  have m: "(t, g) \<in> set (episodes a g)" "(t', g) \<in> set (episodes a g)"
    using assms(2,3) by (simp_all add: episodes_def)
  have "length (episodes a g) \<le> 1" using assms(1) by (simp add: lock_inv_def)
  then obtain e where "episodes a g = [e]"
    using m by (cases "episodes a g") auto
  then have "(t, g) = e" "(t', g) = e" using m by simp_all
  then show ?thesis by (cases e) simp
qed

lemma lock_flag:
  assumes "lock_inv a" and "(t, g) \<in> set (in_flight a)"
  shows "is_processing a g"
proof -
  have "(t, g) \<in> set (episodes a g)" using assms(2) by (simp add: episodes_def)
  then have "episodes a g \<noteq> []" by auto
  then show ?thesis using assms(1) by (simp add: lock_inv_def)
qed

lemma pcs_inv_step:
  assumes "think_step c c'" and "pcs_inv (fst c) (snd c)" and "lock_inv (snd c)"
  shows "pcs_inv (fst c') (snd c')"
  using assms
proof (induction rule: think_step.induct)
  case (spawn ps t a g)
  then show ?case by (fastforce simp: pcs_inv_def)
next
  case (entry ps t g a)
  show ?case
  proof (cases "is_processing a g")
    case True
    then show ?thesis using entry by (fastforce simp: pcs_inv_def think_enter_def)
  next
    case False
    then show ?thesis using entry by (fastforce simp: pcs_inv_def think_enter_def)
  qed
next
  case (stamp ps t g a now)
  then show ?case by (fastforce simp: pcs_inv_def)
next
  case (no_context ps t g a)
  then show ?case by (fastforce simp: pcs_inv_def)
next
  case (generate ps t g a)
  then show ?case by (fastforce simp: pcs_inv_def think_generate_def)
next
  case (exit ps t g a)
  then show ?case by (fastforce simp: pcs_inv_def think_exit_def)
next
  case (other a a' ps)
  then show ?case by (fastforce simp: pcs_inv_def keeps_lock_def)
qed

lemma lock_inv_step:
  assumes "think_step c c'" and "pcs_inv (fst c) (snd c)" and "lock_inv (snd c)"
  shows "lock_inv (snd c')"
  using assms
proof (induction rule: think_step.induct)
  case (spawn ps t a g)
  then show ?case by simp
next
  case (entry ps t g a)
  then show ?case by (simp add: lock_inv_enter)
next
  case (stamp ps t g a now)
  have "keeps_lock a (a\<lparr>lastProcessedTime := (lastProcessedTime a)(g \<mapsto> now)\<rparr>)"
    by (simp add: keeps_lock_def)
  then show ?case using stamp lock_inv_work by fastforce
next
  case (no_context ps t g a)
  then show ?case by simp
next
  case (generate ps t g a)
  then show ?case by (simp add: lock_inv_generate)
next
  case (exit ps t g a)
  then have "(t, g) \<in> set (in_flight a)" by (auto simp: pcs_inv_def)
  then show ?case using exit by (simp add: lock_inv_exit)
next
  case (other a a' ps)
  then show ?case using lock_inv_work by fastforce
qed

lemma think_run_inv: "think_run c \<Longrightarrow> pcs_inv (fst c) (snd c) \<and> lock_inv (snd c)"
proof (induction rule: think_run.induct)
  case init
  then show ?case by (simp add: pcs_inv_def agent0_def lock_inv_init [unfolded agent0_def])
next
  case (step c c')
  then show ?case using pcs_inv_step lock_inv_step by blast
qed


lemma exit_clears:
  assumes "lock_inv a" and "(t, g) \<in> set (in_flight a)"
  shows "\<not> is_processing (think_exit a t g) g \<and> episodes (think_exit a t g) g = [] \<and>
         snd (think_enter (think_exit a t g) t' g)"
proof -
  have "lock_inv (think_exit a t g)" using assms by (rule lock_inv_exit)
  moreover have "\<not> is_processing (think_exit a t g) g"
    by (simp add: think_exit_def is_processing_def)
  ultimately show ?thesis by (simp add: lock_inv_def think_enter_def)
qed

lemma think_busy: "is_processing a g \<Longrightarrow> think a t g now nc = a"
  by (simp add: think_def think_enter_def)

lemma think_free:
  assumes "\<not> is_processing a g"
  shows "\<not> is_processing (think a t g now nc) g \<and>
         llm_calls (think a t g now nc) = (if nc then llm_calls a else llm_calls a @ [(t, g)])"
  using assms
  by (simp add: think_def think_enter_def think_exit_def think_generate_def is_processing_def Let_def)

lemma skipped_stays:
  assumes "think_step c c'" and "fst c t = Some (g, Skipped)"
  shows "fst c' t = Some (g, Skipped)"
  using assms by (induction rule: think_step.induct) (auto split: if_splits)

lemma entry_only:
  assumes "think_step c c'" and "fst c t = Some (g, Entry)" and "fst c' t \<noteq> fst c t"
  shows "c' = ((fst c)(t \<mapsto> (g, if snd (think_enter (snd c) t g) then Locked else Skipped)),
               fst (think_enter (snd c) t g))"
  using assms by (induction rule: think_step.induct) (auto split: if_splits)

lemma think_run_example: "think_run (pcs1, agent1)"
proof -
  let ?a1 = "fst (think_enter agent0 1 7)"
  let ?a2 = "?a1\<lparr>lastProcessedTime := (lastProcessedTime ?a1)(7 \<mapsto> 100)\<rparr>"
  have free: "snd (think_enter agent0 1 7)"
    by (simp add: think_enter_def agent0_def is_processing_def)
  have busy: "think_enter ?a1 2 7 = (?a1, False)"
    by (simp add: think_enter_def agent0_def is_processing_def)
  have r1: "think_run ([1 \<mapsto> (7, Entry)], agent0)"
    by (rule think_run.step [OF think_run.init]) (rule think_step.spawn, simp)
  have "think_step ([1 \<mapsto> (7, Entry)], agent0)
          ([1 \<mapsto> (7, Entry)](1 \<mapsto> (7, if snd (think_enter agent0 1 7) then Locked else Skipped)), ?a1)"
    by (rule think_step.entry) simp
  then have "think_step ([1 \<mapsto> (7, Entry)], agent0) ([1 \<mapsto> (7, Locked)], ?a1)"
    using free by simp
  then have r2: "think_run ([1 \<mapsto> (7, Locked)], ?a1)"
    by (rule think_run.step [OF r1])
  have "think_step ([1 \<mapsto> (7, Locked)], ?a1) ([1 \<mapsto> (7, Locked), 2 \<mapsto> (7, Entry)], ?a1)"
    by (rule think_step.spawn) simp
  then have r3: "think_run ([1 \<mapsto> (7, Locked), 2 \<mapsto> (7, Entry)], ?a1)"
    by (rule think_run.step [OF r2])
  have "think_step ([1 \<mapsto> (7, Locked), 2 \<mapsto> (7, Entry)], ?a1)
          ([1 \<mapsto> (7, Locked), 2 \<mapsto> (7, Entry)]
             (2 \<mapsto> (7, if snd (think_enter ?a1 2 7) then Locked else Skipped)),
           fst (think_enter ?a1 2 7))"
    by (rule think_step.entry) simp
  then have "think_step ([1 \<mapsto> (7, Locked), 2 \<mapsto> (7, Entry)], ?a1)
          ([1 \<mapsto> (7, Locked), 2 \<mapsto> (7, Skipped)], ?a1)"
    using busy by simp
  then have r4: "think_run ([1 \<mapsto> (7, Locked), 2 \<mapsto> (7, Skipped)], ?a1)"
    by (rule think_run.step [OF r3])
  have "think_step ([1 \<mapsto> (7, Locked), 2 \<mapsto> (7, Skipped)], ?a1)
          ([1 \<mapsto> (7, Locked), 2 \<mapsto> (7, Skipped)](1 \<mapsto> (7, Context)), ?a2)"
    by (rule think_step.stamp) simp
  moreover have "[1 \<mapsto> (7, Locked), 2 \<mapsto> (7, Skipped)](1 \<mapsto> (7, Context)) =
                 [1::nat \<mapsto> (7, Context), 2 \<mapsto> (7::int, Skipped)]"
    by (rule ext) simp
  ultimately have "think_step ([1 \<mapsto> (7, Locked), 2 \<mapsto> (7, Skipped)], ?a1)
          ([1 \<mapsto> (7, Context), 2 \<mapsto> (7, Skipped)], ?a2)"
    by simp
  then have r5: "think_run ([1 \<mapsto> (7, Context), 2 \<mapsto> (7, Skipped)], ?a2)"
    by (rule think_run.step [OF r4])
  have "think_step ([1 \<mapsto> (7, Context), 2 \<mapsto> (7, Skipped)], ?a2)
          ([1 \<mapsto> (7, Context), 2 \<mapsto> (7, Skipped)](1 \<mapsto> (7, Deferred)), think_generate ?a2 1 7)"
    by (rule think_step.generate) simp
  moreover have "[1 \<mapsto> (7, Context), 2 \<mapsto> (7, Skipped)](1 \<mapsto> (7, Deferred)) = pcs1"
    unfolding pcs1_def by (rule ext) simp
  moreover have "think_generate ?a2 1 7 = agent1"
    by (simp add: agent1_def think_enter_def agent0_def is_processing_def)
  ultimately have "think_step ([1 \<mapsto> (7, Context), 2 \<mapsto> (7, Skipped)], ?a2) (pcs1, agent1)"
    by simp
  then show ?thesis by (rule think_run.step [OF r5])
qed


text \<open>
  Claim C1. In every state the agent can reach by interleaving invocations of \<open>think\<close>:
  at most one invocation per group is between the entry section and its deferred exit,
  and the flag of the group is set exactly then. While one is, \<open>think\<close> for that group
  returns at once and leaves the whole state as it is, the calls of the model included;
  the only step an invocation at its entry can take then is the early return, after
  which it takes no further step and has made no call of the model. Every call of the
  model was made by an invocation that passed the entry section. The deferred exit of
  the invocation in flight clears the flag, after which the next invocation for the
  group is admitted; and when no invocation is in flight for the group, \<open>think\<close> is
  admitted, is the one in flight, calls the model unless the context is empty, and has
  cleared the flag when it returns.
\<close>

theorem think_serialized:
  assumes "think_run (ps, a)"
  shows "length (episodes a g) \<le> 1 \<and>
         (is_processing a g \<longleftrightarrow> episodes a g \<noteq> []) \<and>
         (ps t = Some (g, pc) \<and> holds_lock pc \<and> ps t' = Some (g, pc') \<and> holds_lock pc' \<longrightarrow> t' = t) \<and>
         (episodes a g \<noteq> [] \<longrightarrow> think_enter a t g = (a, False) \<and> think a t g now nc = a) \<and>
         (ps t = Some (g, Entry) \<and> episodes a g \<noteq> [] \<and> think_step (ps, a) (ps', a') \<and> ps' t \<noteq> ps t \<longrightarrow>
            ps' = ps(t \<mapsto> (g, Skipped)) \<and> a' = a) \<and>
         (ps t = Some (g, Skipped) \<longrightarrow>
            (t, g') \<notin> set (llm_calls a) \<and> (t, g') \<notin> set (in_flight a) \<and>
            (think_step (ps, a) (ps', a') \<longrightarrow> ps' t = Some (g, Skipped))) \<and>
         ((t, g) \<in> set (llm_calls a) \<longrightarrow> ps t = Some (g, Deferred) \<or> ps t = Some (g, Finished)) \<and>
         (ps t = Some (g, Deferred) \<longrightarrow>
            (t, g) \<in> set (in_flight a) \<and> \<not> is_processing (think_exit a t g) g \<and>
            episodes (think_exit a t g) g = [] \<and> snd (think_enter (think_exit a t g) t' g)) \<and>
         (episodes a g = [] \<longrightarrow>
            snd (think_enter a t g) \<and> episodes (fst (think_enter a t g)) g = [(t, g)] \<and>
            \<not> is_processing (think a t g now nc) g \<and>
            llm_calls (think a t g now nc) = (if nc then llm_calls a else llm_calls a @ [(t, g)]))"
proof -
  from think_run_inv [OF assms] have pi: "pcs_inv ps a" and i: "lock_inv a" by simp_all
  from i have p: "is_processing a g \<longleftrightarrow> episodes a g \<noteq> []" and l: "length (episodes a g) \<le> 1"
    by (simp_all add: lock_inv_def)
  from pi have fl: "\<And>t g. ((t, g) \<in> set (in_flight a)) = (\<exists>pc. ps t = Some (g, pc) \<and> holds_lock pc)"
    and calls: "\<And>t g. (t, g) \<in> set (llm_calls a) \<Longrightarrow> ps t = Some (g, Deferred) \<or> ps t = Some (g, Finished)"
    by (simp_all add: pcs_inv_def)
  have c3: "ps t = Some (g, pc) \<and> holds_lock pc \<and> ps t' = Some (g, pc') \<and> holds_lock pc' \<longrightarrow> t' = t"
  proof
    assume h: "ps t = Some (g, pc) \<and> holds_lock pc \<and> ps t' = Some (g, pc') \<and> holds_lock pc'"
    then have "(t, g) \<in> set (in_flight a)" "(t', g) \<in> set (in_flight a)"
      using fl by blast+
    then show "t' = t" using lock_one [OF i] by blast
  qed
  have c4: "episodes a g \<noteq> [] \<longrightarrow> think_enter a t g = (a, False) \<and> think a t g now nc = a"
    using p by (simp add: think_enter_def think_busy)
  have c5: "ps t = Some (g, Entry) \<and> episodes a g \<noteq> [] \<and> think_step (ps, a) (ps', a') \<and> ps' t \<noteq> ps t \<longrightarrow>
            ps' = ps(t \<mapsto> (g, Skipped)) \<and> a' = a"
  proof
    assume h: "ps t = Some (g, Entry) \<and> episodes a g \<noteq> [] \<and> think_step (ps, a) (ps', a') \<and> ps' t \<noteq> ps t"
    then have busy: "is_processing a g" using p by simp
    from h have st: "think_step (ps, a) (ps', a')" and e: "fst (ps, a) t = Some (g, Entry)"
      and ne: "fst (ps', a') t \<noteq> fst (ps, a) t" by auto
    have "(ps', a') = (ps(t \<mapsto> (g, if snd (think_enter a t g) then Locked else Skipped)),
               fst (think_enter a t g))"
      using entry_only [OF st e ne] by simp
    then show "ps' = ps(t \<mapsto> (g, Skipped)) \<and> a' = a"
      using busy by (simp add: think_enter_def)
  qed
  have c6: "ps t = Some (g, Skipped) \<longrightarrow>
            (t, g') \<notin> set (llm_calls a) \<and> (t, g') \<notin> set (in_flight a) \<and>
            (think_step (ps, a) (ps', a') \<longrightarrow> ps' t = Some (g, Skipped))"
  proof
    assume h: "ps t = Some (g, Skipped)"
    have "(t, g') \<notin> set (llm_calls a)" using calls [of t g'] h by auto
    moreover have "(t, g') \<notin> set (in_flight a)" using fl [of t g'] h by auto
    moreover have "think_step (ps, a) (ps', a') \<longrightarrow> ps' t = Some (g, Skipped)"
      using skipped_stays [of "(ps, a)" "(ps', a')" t g] h by simp
    ultimately show "(t, g') \<notin> set (llm_calls a) \<and> (t, g') \<notin> set (in_flight a) \<and>
            (think_step (ps, a) (ps', a') \<longrightarrow> ps' t = Some (g, Skipped))" by simp
  qed
  have c7: "(t, g) \<in> set (llm_calls a) \<longrightarrow> ps t = Some (g, Deferred) \<or> ps t = Some (g, Finished)"
    using calls by blast
  have c8: "ps t = Some (g, Deferred) \<longrightarrow>
            (t, g) \<in> set (in_flight a) \<and> \<not> is_processing (think_exit a t g) g \<and>
            episodes (think_exit a t g) g = [] \<and> snd (think_enter (think_exit a t g) t' g)"
  proof
    assume h: "ps t = Some (g, Deferred)"
    then have m: "(t, g) \<in> set (in_flight a)" using fl [of t g] by simp
    then show "(t, g) \<in> set (in_flight a) \<and> \<not> is_processing (think_exit a t g) g \<and>
            episodes (think_exit a t g) g = [] \<and> snd (think_enter (think_exit a t g) t' g)"
      using exit_clears [OF i m] by simp
  qed
  have c9: "episodes a g = [] \<longrightarrow>
            snd (think_enter a t g) \<and> episodes (fst (think_enter a t g)) g = [(t, g)] \<and>
            \<not> is_processing (think a t g now nc) g \<and>
            llm_calls (think a t g now nc) = (if nc then llm_calls a else llm_calls a @ [(t, g)])"
  proof
    assume e: "episodes a g = []"
    then have np: "\<not> is_processing a g" using p by simp
    then have "snd (think_enter a t g) \<and> episodes (fst (think_enter a t g)) g = [(t, g)]"
      using e by (simp add: think_enter_def episodes_def)
    then show "snd (think_enter a t g) \<and> episodes (fst (think_enter a t g)) g = [(t, g)] \<and>
            \<not> is_processing (think a t g now nc) g \<and>
            llm_calls (think a t g now nc) = (if nc then llm_calls a else llm_calls a @ [(t, g)])"
      using think_free [OF np] by simp
  qed
  from l p c3 c4 c5 c6 c7 c8 c9 show ?thesis by (intro conjI)
qed


theorem think_serialized_witness:
  "think_run (pcs1, agent1) \<and> pcs1 1 = Some (7, Deferred) \<and> pcs1 2 = Some (7, Skipped) \<and>
   llm_calls agent1 = [(1, 7)] \<and> (2, 7) \<notin> set (llm_calls agent1) \<and>
   episodes agent1 7 = [(1, 7)] \<and>
   think_enter agent1 3 7 = (agent1, False) \<and> think agent1 3 7 200 False = agent1 \<and>
   \<not> is_processing (think_exit agent1 1 7) 7 \<and> episodes (think_exit agent1 1 7) 7 = [] \<and>
   snd (think_enter (think_exit agent1 1 7) 3 7)"
proof -
  have p1: "pcs1 1 = Some (7, Deferred)" and p2: "pcs1 2 = Some (7, Skipped)"
    by (simp_all add: pcs1_def)
  have calls: "llm_calls agent1 = [(1, 7)]"
    by (simp add: agent1_def think_generate_def think_enter_def agent0_def is_processing_def)
  have e: "episodes agent1 7 = [(1, 7)]"
    by (simp add: agent1_def think_generate_def think_enter_def agent0_def is_processing_def
        episodes_def)
  from think_serialized [OF think_run_example, where g = 7 and t = 2 and g' = 7] p2
  have a: "(2, 7) \<notin> set (llm_calls agent1)"
    by simp
  from think_serialized [OF think_run_example, where g = 7 and t = 3 and now = 200 and nc = False] e
  have b: "think_enter agent1 3 7 = (agent1, False)" and c: "think agent1 3 7 200 False = agent1"
    by simp_all
  have x: "\<not> is_processing (think_exit agent1 1 7) 7 \<and> episodes (think_exit agent1 1 7) 7 = [] \<and>
           snd (think_enter (think_exit agent1 1 7) 3 7)"
    using think_run_inv [OF think_run_example] e
    by (simp add: think_exit_def is_processing_def think_enter_def episodes_def agent1_def
        think_generate_def agent0_def)
  show ?thesis using think_run_example p1 p2 calls a e b c x by simp
qed


section \<open>Speaking: a failed send changes nothing\<close>

lemma Push_newest:
  assumes "rb_inv rb"
  shows "\<exists>rb'. Push rb x = Some rb' \<and> rb_inv rb' \<and> 0 < count rb' \<and>
           data rb' ! ((tail rb' + cap rb' - 1) mod cap rb') = x"
proof -
  let ?c = "cap rb"
  from assms have c0: "0 < ?c" and len: "length (data rb) = ?c" and hd: "head rb < ?c"
    and tl: "tail rb = (head rb + count rb) mod ?c" and cle: "count rb \<le> ?c"
    by (simp_all add: rb_inv_def)
  have tlt: "tail rb < ?c" using tl c0 by simp
  have wrap: "((tail rb + 1) mod ?c + ?c - 1) mod ?c = tail rb"
  proof -
    have "((tail rb + 1) mod ?c + (?c - 1)) mod ?c = (tail rb + 1 + (?c - 1)) mod ?c"
      by (simp only: mod_add_left_eq)
    also have "\<dots> = (tail rb + ?c) mod ?c" using c0 by simp
    also have "\<dots> = tail rb" using tlt by simp
    finally show ?thesis using c0 by (simp add: add.assoc)
  qed
  obtain rb' where P: "Push rb x = Some rb'" and I: "rb_inv rb'"
  proof (cases "count rb < ?c")
    case True
    then show ?thesis using Push_not_full [OF assms True, of x] that by blast
  next
    case False
    then have "count rb = ?c" using cle by simp
    then show ?thesis using Push_full [OF assms, of x] that by blast
  qed
  have d: "data rb' = (data rb)[tail rb := x]" and t: "tail rb' = (tail rb + 1) mod ?c"
    and c: "cap rb' = ?c" and n: "0 < count rb'"
    using P c0 tlt len by (auto simp: Push_def Let_def split: if_splits)
  have "data rb' ! ((tail rb' + cap rb' - 1) mod cap rb') = x"
    using d t c wrap tlt len by simp
  then show ?thesis using P I n by blast
qed

lemma addBuffer_newest:
  assumes "buffer_ok a (gm_GroupID msg)"
  shows "\<exists>a'. addBuffer env a msg = Some a' \<and> newest a' (gm_GroupID msg) = Some msg \<and>
              lastSpeak a' = lastSpeak a \<and> buffer_ok a' (gm_GroupID msg)"
proof -
  define buf where "buf = (case buffers a (gm_GroupID msg) of
                   Some b \<Rightarrow> b
                 | None \<Rightarrow> NewRingBuffer msg (if MessageBufferSize env \<le> 0 then 50
                                    else MessageBufferSize env))"
  have "rb_inv buf"
    using assms by (auto simp: buf_def buffer_ok_def rb_inv_New split: option.splits)
  from Push_newest [OF this, of msg]
  obtain rb' where P: "Push buf msg = Some rb'" and I: "rb_inv rb'" and n: "0 < count rb'"
    and x: "data rb' ! ((tail rb' + cap rb' - 1) mod cap rb') = msg" by blast
  have "addBuffer env a msg =
      (case Push buf msg of None \<Rightarrow> None
       | Some buf' \<Rightarrow> Some (a\<lparr>buffers := (buffers a)(gm_GroupID msg \<mapsto> buf')\<rparr>))"
    by (simp add: addBuffer_def buf_def Let_def split: option.splits)
  then have "addBuffer env a msg = Some (a\<lparr>buffers := (buffers a)(gm_GroupID msg \<mapsto> rb')\<rparr>)"
    using P by simp
  then show ?thesis using I n x by (simp add: newest_def buffer_ok_def)
qed

lemma onMessage_self:
  assumes "buffer_ok a (gm_GroupID msg)" and "gm_UserID msg = SelfID env"
  shows "\<exists>a'. onMessage fault env a msg = Some a' \<and> lastSpeak a' = lastSpeak a \<and>
              spawned a' = spawned a \<and>
              (IsGroupEnabled env (gm_GroupID msg) \<longrightarrow> newest a' (gm_GroupID msg) = Some msg)"
proof (cases "IsGroupEnabled env (gm_GroupID msg)")
  case False
  then show ?thesis by (simp add: onMessage_def)
next
  case True
  from addBuffer_newest [OF assms(1), of env]
  obtain a1 where A: "addBuffer env a msg = Some a1" and N: "newest a1 (gm_GroupID msg) = Some msg"
    and L: "lastSpeak a1 = lastSpeak a" by blast
  have S: "spawned a1 = spawned a" using A by (auto simp: addBuffer_def Let_def split: option.splits)
  show ?thesis
    using True A N L S assms(2)
    by (auto simp: onMessage_def Let_def newest_def split: sum.splits)
qed


text \<open>
  Claim C10. When the gateway send inside \<open>doSpeak\<close> fails, \<open>doSpeak\<close> returns
  message id 0 and the agent state it returns is the state it was given: \<open>lastSpeak\<close>
  is not updated and nothing is ingested. When the send succeeds with id \<open>msgID\<close>,
  \<open>doSpeak\<close> returns \<open>msgID\<close>, the state is the one \<open>onMessage\<close> yields for the
  bot's own message after \<open>recordSpeak\<close>, \<open>lastSpeak\<close> of the group is the time of
  speaking, and for an enabled group the message is the newest of the group's buffer.
\<close>

theorem doSpeak_frame:
  "(gateway_send gw g c replyTo = Inl err \<longrightarrow>
      doSpeak fault env gw now_speak now_msg a g c replyTo = Some (a, 0)) \<and>
   (gateway_send gw g c replyTo = Inr msgID \<and> buffer_ok a g \<longrightarrow>
      (\<exists>a'. doSpeak fault env gw now_speak now_msg a g c replyTo = Some (a', msgID) \<and>
            onMessage fault env (recordSpeak a g now_speak)
              (self_message env msgID g c now_msg) = Some a' \<and>
            lastSpeak a' = (lastSpeak a)(g \<mapsto> now_speak) \<and>
            (IsGroupEnabled env g \<longrightarrow>
               newest a' g = Some (self_message env msgID g c now_msg))))"
proof (intro conjI impI)
  assume "gateway_send gw g c replyTo = Inl err"
  then show "doSpeak fault env gw now_speak now_msg a g c replyTo = Some (a, 0)"
    by (simp add: doSpeak_def gateway_send_def Let_def)
next
  assume h: "gateway_send gw g c replyTo = Inr msgID \<and> buffer_ok a g"
  let ?msg = "self_message env msgID g c now_msg"
  let ?a1 = "recordSpeak a g now_speak"
  have g: "gm_GroupID ?msg = g" and u: "gm_UserID ?msg = SelfID env"
    by (simp_all add: self_message_def)
  have "buffer_ok ?a1 (gm_GroupID ?msg)"
    using h g by (simp add: buffer_ok_def recordSpeak_def)
  from onMessage_self [OF this u, of fault]
  obtain a' where O: "onMessage fault env ?a1 ?msg = Some a'"
    and L: "lastSpeak a' = lastSpeak ?a1"
    and N: "IsGroupEnabled env (gm_GroupID ?msg) \<longrightarrow> newest a' (gm_GroupID ?msg) = Some ?msg"
    by blast
  have D: "doSpeak fault env gw now_speak now_msg a g c replyTo = Some (a', msgID)"
    using h O by (simp add: doSpeak_def gateway_send_def Let_def)
  have L': "lastSpeak a' = (lastSpeak a)(g \<mapsto> now_speak)"
    using L by (simp add: recordSpeak_def)
  show "\<exists>a'. doSpeak fault env gw now_speak now_msg a g c replyTo = Some (a', msgID) \<and>
            onMessage fault env (recordSpeak a g now_speak)
              (self_message env msgID g c now_msg) = Some a' \<and>
            lastSpeak a' = (lastSpeak a)(g \<mapsto> now_speak) \<and>
            (IsGroupEnabled env g \<longrightarrow>
               newest a' g = Some (self_message env msgID g c now_msg))"
    using D O L' N g by auto
qed

theorem doSpeak_frame_witness:
  "gateway_send gw_down 7 (runes ''hi'') 0 = Inl SendError \<and>
   doSpeak False env0 gw_down 100 101 agent0 7 (runes ''hi'') 0 = Some (agent0, 0) \<and>
   gateway_send gw_up 7 (runes ''hi'') 0 = Inr 42 \<and> buffer_ok agent0 7 \<and>
   IsGroupEnabled env0 7 \<and>
   (\<exists>a'. doSpeak False env0 gw_up 100 101 agent0 7 (runes ''hi'') 0 = Some (a', 42) \<and>
         lastSpeak a' 7 = Some 100 \<and>
         newest a' 7 = Some (self_message env0 42 7 (runes ''hi'') 101))"
proof -
  have d: "gateway_send gw_down 7 (runes ''hi'') 0 = Inl SendError"
    by (simp add: gateway_send_def gw_down_def)
  have u: "gateway_send gw_up 7 (runes ''hi'') 0 = Inr 42"
    by (simp add: gateway_send_def gw_up_def)
  have b: "buffer_ok agent0 7" by (simp add: buffer_ok_def agent0_def)
  have e: "IsGroupEnabled env0 7" by (simp add: IsGroupEnabled_def GetGroupConfig_def env0_def)
  from doSpeak_frame [of gw_down 7 "runes ''hi''" 0 SendError False env0 100 101 agent0] d
  have A: "doSpeak False env0 gw_down 100 101 agent0 7 (runes ''hi'') 0 = Some (agent0, 0)"
    by blast
  from doSpeak_frame [of gw_up 7 "runes ''hi''" 0 _ False env0 100 101 agent0 42] u b e
  obtain a' where "doSpeak False env0 gw_up 100 101 agent0 7 (runes ''hi'') 0 = Some (a', 42)"
    and "lastSpeak a' = (lastSpeak agent0)(7 \<mapsto> 100)"
    and "newest a' 7 = Some (self_message env0 42 7 (runes ''hi'') 101)"
    by blast
  then have "\<exists>a'. doSpeak False env0 gw_up 100 101 agent0 7 (runes ''hi'') 0 = Some (a', 42) \<and>
         lastSpeak a' 7 = Some 100 \<and>
         newest a' 7 = Some (self_message env0 42 7 (runes ''hi'') 101)"
    by auto
  then show ?thesis using d u b e A by blast
qed

section \<open>Mood updates are clamped\<close>

lemma ClampFloat64_range: "lo \<le> hi \<Longrightarrow> lo \<le> ClampFloat64 v lo hi \<and> ClampFloat64 v lo hi \<le> hi"
  by (simp add: ClampFloat64_def)

lemma Save_mood_result:
  assumes "Save_mood fault now db mood = Inr (db', saved)"
  shows "saved \<in> set (mood_state db') \<and> Valence saved = Valence mood \<and>
         Energy saved = Energy mood \<and> Sociability saved = Sociability mood \<and>
         LastReason saved = LastReason mood"
  using assms
  by (auto simp: Save_mood_def Let_def split: if_splits)

lemma Save_mood_ok: "\<exists>db' saved. Save_mood False now db mood = Inr (db', saved)"
  by (simp add: Save_mood_def Let_def)

lemma GetMoodState_ok: "\<exists>db' mood. GetMoodState False False now db = (db', Inr mood)"
proof (cases "First False mood_ID (\<lambda>r. True) (mood_state db)")
  case (Inr m)
  then show ?thesis by (simp add: GetMoodState_def)
next
  case (Inl e)
  then have e: "e = ErrRecordNotFound" by (auto simp: First_def split: option.splits)
  have "\<exists>db' mood. Create_mood False now db default_mood = Inr (db', mood)"
    by (simp add: Create_mood_def default_mood_def Let_def)
  then show ?thesis using Inl e by (auto simp: GetMoodState_def)
qed

text \<open>
  Claim C8. For every store, whatever mood row it holds or none, and for all deltas:
  a state that \<open>UpdateMoodState\<close> returns has \<open>valence\<close> in \<open>[-1, 1]\<close> and
  \<open>energy\<close> and \<open>sociability\<close> in \<open>[0, 1]\<close>, and it is the row the call wrote; and
  when no statement of the engine fails, the call does return a state.
\<close>

theorem UpdateMoodState_clamped:
  "(UpdateMoodState fault_first fault_create fault_save now db dv de ds reason = (db', Inr m)
      \<longrightarrow> mood_in_range m \<and> m \<in> set (mood_state db')) \<and>
   (\<exists>db'' m'. UpdateMoodState False False False now db dv de ds reason = (db'', Inr m'))"
proof (rule conjI)
  show "UpdateMoodState fault_first fault_create fault_save now db dv de ds reason = (db', Inr m)
      \<longrightarrow> mood_in_range m \<and> m \<in> set (mood_state db')"
  proof (rule impI)
  assume u: "UpdateMoodState fault_first fault_create fault_save now db dv de ds reason = (db', Inr m)"
  obtain db1 r where g: "GetMoodState fault_first fault_create now db = (db1, r)"
    by (cases "GetMoodState fault_first fault_create now db") auto
  from u g obtain mood where r: "r = Inr mood" by (cases r) (auto simp: UpdateMoodState_def)
  define mood4 where "mood4 = mood\<lparr>Valence := ClampFloat64 (f64_add (Valence mood) dv) (- 1) 1,
      Energy := ClampFloat64 (f64_add (Energy mood) de) 0 1,
      Sociability := ClampFloat64 (f64_add (Sociability mood) ds) 0 1,
      LastReason := reason\<rparr>"
  have s: "Save_mood fault_save now db1 mood4 = Inr (db', m)"
    using u g r by (auto simp: UpdateMoodState_def mood4_def Let_def split: sum.splits)
  from Save_mood_result [OF s]
  have mem: "m \<in> set (mood_state db')" and v: "Valence m = Valence mood4"
    and e: "Energy m = Energy mood4" and so: "Sociability m = Sociability mood4" by simp_all
  have "mood_in_range m"
    unfolding mood_in_range_def v e so
    using ClampFloat64_range [of "- 1" 1 "f64_add (Valence mood) dv"]
      ClampFloat64_range [of 0 1 "f64_add (Energy mood) de"]
      ClampFloat64_range [of 0 1 "f64_add (Sociability mood) ds"]
    by (simp add: mood4_def)
  then show "mood_in_range m \<and> m \<in> set (mood_state db')" using mem by simp
  qed
next
  from GetMoodState_ok [of now db] obtain db1 mood
    where g: "GetMoodState False False now db = (db1, Inr mood)" by blast
  define mood4 where "mood4 = mood\<lparr>Valence := ClampFloat64 (f64_add (Valence mood) dv) (- 1) 1,
      Energy := ClampFloat64 (f64_add (Energy mood) de) 0 1,
      Sociability := ClampFloat64 (f64_add (Sociability mood) ds) 0 1,
      LastReason := reason\<rparr>"
  from Save_mood_ok [of now db1 mood4] obtain db2 saved
    where "Save_mood False now db1 mood4 = Inr (db2, saved)" by blast
  then have "UpdateMoodState False False False now db dv de ds reason = (db2, Inr saved)"
    using g by (simp add: UpdateMoodState_def mood4_def Let_def)
  then show "\<exists>db'' m'. UpdateMoodState False False False now db dv de ds reason = (db'', Inr m')"
    by blast
qed


theorem UpdateMoodState_clamped_witness:
  "\<not> mood_in_range mood_wild \<and>
   (\<exists>db' m. UpdateMoodState False False False 9 (db_with mood_wild profile0) 5 (- 3) (1 / 5) []
               = (db', Inr m) \<and> mood_in_range m \<and> m \<in> set (mood_state db'))"
proof -
  have w: "\<not> mood_in_range mood_wild" by (simp add: mood_in_range_def mood_wild_def)
  from UpdateMoodState_clamped [of False False False 9 "db_with mood_wild profile0" 5 "- 3" "1 / 5" "[]"]
  obtain db'' m' where
    u: "UpdateMoodState False False False 9 (db_with mood_wild profile0) 5 (- 3) (1 / 5) [] = (db'', Inr m')"
    by blast
  from UpdateMoodState_clamped [of False False False 9 "db_with mood_wild profile0" 5 "- 3" "1 / 5" "[]" db'' m'] u
  have "mood_in_range m' \<and> m' \<in> set (mood_state db'')" by blast
  then show ?thesis using w u by blast
qed

section \<open>Mood decay moves toward the fixpoint\<close>

lemma fl_exactI:
  assumes "- 1022 \<le> k" and "pow2 k \<le> x" and "x < pow2 (k + 1)"
    and "x = of_int m * pow2 (k - 52)"
  shows "fl x = x"
proof -
  have e: "expo x = k" using assms(1-3) by (rule expo_eqI)
  have "quantum x = pow2 (k - 52)" by (simp add: quantum_expo e)
  then have "x = of_int m * quantum x" using assms(4) by (simp only:)
  then have "fl_mag x = x" by (rule fl_mag_exact)
  moreover have "0 < x" using assms(2) pow2_pos [of k] by linarith
  ultimately show ?thesis by (simp add: fl_def)
qed

lemma fl_three_quarters: "fl (3 / 4) = 3 / 4"
  by (rule fl_exactI [of "- 1" _ "3 * 2 ^ 51"]) (simp_all add: pow2_def)

lemma fl_31_32: "fl (31 / 32) = 31 / 32"
  by (rule fl_exactI [of "- 1" _ "31 * 2 ^ 48"]) (simp_all add: pow2_def)

lemma fl_1_32: "fl (1 / 32) = 1 / 32"
  using fl_pow2 [of "- 5"] by (simp add: pow2_def)

lemma fl_1_16: "fl (1 / 16) = 1 / 16"
  using fl_pow2 [of "- 4"] by (simp add: pow2_def)

lemma c95_bounds: "3 / 4 \<le> fl (95 / 100) \<and> fl (95 / 100) \<le> 31 / 32"
  using fl_mono [of "3 / 4" "95 / 100"] fl_mono [of "95 / 100" "31 / 32"]
  by (simp add: fl_three_quarters fl_31_32)

lemma c05_bounds: "1 / 32 \<le> fl (5 / 100) \<and> fl (5 / 100) \<le> 1 / 16"
  using fl_mono [of "1 / 32" "5 / 100"] fl_mono [of "5 / 100" "1 / 16"]
  by (simp add: fl_1_32 fl_1_16)

lemma fl_subnormal_sticky:
  assumes "1 / 2 < c" and "c \<le> 1"
  shows "fl (pow2 (- 1074) * c) = pow2 (- 1074)"
proof -
  let ?x = "pow2 (- 1074) * c"
  have p: "0 < pow2 (- 1074)" by (rule pow2_pos)
  have x0: "0 < ?x" using assms p by simp
  have "?x \<le> pow2 (- 1074)" using assms p by (simp add: mult_left_le)
  moreover have "pow2 (- 1074) < pow2 (- 1022)" by (simp add: pow2_powr)
  ultimately have "?x < pow2 (- 1022)" by linarith
  then have q: "quantum ?x = pow2 (- 1074)" by (simp add: quantum_def)
  have "?x / quantum ?x = c" using p by (simp add: q)
  moreover have "round_half_even c = 1"
  proof (cases "c = 1")
    case True
    then show ?thesis using rhe_of_int [of 1] by simp
  next
    case False
    then have "\<lfloor>c\<rfloor> = 0" using assms by (simp add: floor_eq_iff)
    then show ?thesis using assms by (simp add: round_half_even_def)
  qed
  ultimately have "fl_mag ?x = pow2 (- 1074)" by (simp add: fl_mag_def q)
  then show ?thesis using x0 by (simp add: fl_def)
qed

lemma fl_mul_shrinks:
  assumes "is_f64 v" and "0 \<le> c" and "c \<le> 1"
  shows "\<bar>fl (v * c)\<bar> \<le> \<bar>v\<bar> \<and> (0 \<le> v \<longrightarrow> 0 \<le> fl (v * c)) \<and> (v \<le> 0 \<longrightarrow> fl (v * c) \<le> 0)"
proof (cases "0 \<le> v")
  case True
  then have "0 \<le> v * c" and "v * c \<le> v" using assms by (simp_all add: mult_left_le)
  then have "0 \<le> fl (v * c)" and "fl (v * c) \<le> fl v"
    using fl_nonneg fl_mono by blast+
  then show ?thesis using True assms(1) by (simp add: is_f64_def)
next
  case False
  then have v: "v \<le> 0" by simp
  then have "v * c \<le> 0" using assms by (simp add: mult_nonpos_nonneg)
  moreover have "v \<le> v * c" using v assms
    by (metis mult.right_neutral mult_left_mono_neg)
  ultimately have "fl (v * c) \<le> 0" and "fl v \<le> fl (v * c)"
    using fl_nonpos fl_mono by blast+
  then show ?thesis using False assms(1) by (simp add: is_f64_def)
qed

lemma toward_half:
  assumes "is_f64 e" and "0 \<le> c"
  shows "(1 / 2 \<le> e \<longrightarrow> f64_add_mul fused e (f64_sub (1 / 2) e) c \<le> e) \<and>
         (e \<le> 1 / 2 \<longrightarrow> e \<le> f64_add_mul fused e (f64_sub (1 / 2) e) c)"
proof (intro conjI impI)
  assume h: "1 / 2 \<le> e"
  then have d: "f64_sub (1 / 2) e \<le> 0" using fl_nonpos [of "1 / 2 - e"] by (simp add: f64_sub_def)
  then have dc: "f64_sub (1 / 2) e * c \<le> 0" using assms(2) by (simp add: mult_nonpos_nonneg)
  then have t: "f64_mul (f64_sub (1 / 2) e) c \<le> 0" using fl_nonpos by (simp add: f64_mul_def)
  have "fl (e + f64_sub (1 / 2) e * c) \<le> fl e" using dc by (intro fl_mono) simp
  moreover have "fl (e + f64_mul (f64_sub (1 / 2) e) c) \<le> fl e" using t by (intro fl_mono) simp
  ultimately show "f64_add_mul fused e (f64_sub (1 / 2) e) c \<le> e"
    using assms(1) by (simp add: f64_add_mul_def f64_add_def is_f64_def)
next
  assume h: "e \<le> 1 / 2"
  then have d: "0 \<le> f64_sub (1 / 2) e" using fl_nonneg [of "1 / 2 - e"] by (simp add: f64_sub_def)
  then have dc: "0 \<le> f64_sub (1 / 2) e * c" using assms(2) by simp
  then have t: "0 \<le> f64_mul (f64_sub (1 / 2) e) c" using fl_nonneg by (simp add: f64_mul_def)
  have "fl e \<le> fl (e + f64_sub (1 / 2) e * c)" using dc by (intro fl_mono) simp
  moreover have "fl e \<le> fl (e + f64_mul (f64_sub (1 / 2) e) c)" using t by (intro fl_mono) simp
  ultimately show "e \<le> f64_add_mul fused e (f64_sub (1 / 2) e) c"
    using assms(1) by (simp add: f64_add_mul_def f64_add_def is_f64_def)
qed

lemma half_fixed: "f64_add_mul fused (1 / 2) (f64_sub (1 / 2) (1 / 2)) c = 1 / 2"
  by (simp add: f64_add_mul_def f64_add_def f64_sub_def f64_mul_def fl_zero fl_half)

lemma zero_fixed: "f64_mul 0 c = 0"
  by (simp add: f64_mul_def fl_zero)

lemma rhe_below_half: "z < of_int n - 1 / 2 \<Longrightarrow> round_half_even z \<le> n - 1"
proof -
  assume a: "z < of_int n - 1 / 2"
  have "of_int (round_half_even z) \<le> z + 1 / 2" using rhe_bounds [of z] by simp
  then have "(of_int (round_half_even z) :: real) < of_int n" using a by linarith
  then show ?thesis by simp
qed

lemma rhe_above_half: "of_int n + 1 / 2 < z \<Longrightarrow> n + 1 \<le> round_half_even z"
proof -
  assume a: "of_int n + 1 / 2 < z"
  have "z - 1 / 2 \<le> of_int (round_half_even z)" using rhe_bounds [of z] by simp
  then have "(of_int n :: real) < of_int (round_half_even z)" using a by linarith
  then show ?thesis by simp
qed

lemma rhe_near:
  assumes "of_int n - 1 / 2 < z" and "z < of_int n + 1 / 2"
  shows "round_half_even z = n"
proof -
  have "of_int (n - 1) + 1 / 2 < z" using assms(1) by simp
  then have "n \<le> round_half_even z" using rhe_above_half [of "n - 1" z] by simp
  moreover have "z < of_int (n + 1) - 1 / 2" using assms(2) by simp
  then have "round_half_even z \<le> n" using rhe_below_half [of z "n + 1"] by simp
  ultimately show ?thesis by simp
qed

lemma fl_minus: "fl (- x) = - fl x"
  by (simp add: fl_def fl_mag_zero)

lemma is_f64_minus: "is_f64 (- x) = is_f64 x"
  by (simp add: is_f64_def fl_minus)

lemma pow2_less: "j < k \<Longrightarrow> pow2 j < pow2 k"
  by (simp add: pow2_powr)

lemma pow2_less_cancel: "pow2 j < pow2 k \<Longrightarrow> j < k"
  by (simp add: pow2_powr)

lemma pow2_53: "pow2 53 = of_int (2 ^ 53)"
  using pow2_nat [of 53] by simp

lemma fl_int_mult:
  assumes "- 1074 \<le> k" and "0 \<le> m" and "m \<le> 2 ^ 53"
  shows "fl (of_int m * pow2 k) = of_int m * pow2 k"
proof (cases "m = 2 ^ 53")
  case True
  then have "of_int m * pow2 k = pow2 (53 + k)" by (simp only: pow2_add pow2_53)
  moreover have "fl (pow2 (53 + k)) = pow2 (53 + k)" using assms(1) by (intro fl_pow2) simp
  ultimately show ?thesis by simp
next
  case False
  then have m: "m < 2 ^ 53" using assms(3) by simp
  let ?x = "of_int m * pow2 k"
  have x0: "0 \<le> ?x" using assms(2) pow2_pos [of k] by simp
  have "real_of_int m < of_int (2 ^ 53)" using m by (simp only: of_int_less_iff)
  then have "?x < pow2 53 * pow2 k" using pow2_pos [of k] by (simp add: pow2_53)
  then have ub: "?x < pow2 (53 + k)" by (simp only: pow2_add)
  have e: "expo ?x - 52 \<le> k"
  proof (cases "?x < pow2 (- 1022)")
    case True
    then show ?thesis using assms(1) by (simp add: expo_def)
  next
    case False
    then have "pow2 (expo ?x) \<le> ?x" using expo_bounds [of ?x] by simp
    then have "pow2 (expo ?x) < pow2 (53 + k)" using ub by linarith
    then have "expo ?x < 53 + k" by (rule pow2_less_cancel)
    then show ?thesis by simp
  qed
  define j where "j = k - (expo ?x - 52)"
  have j0: "0 \<le> j" using e by (simp add: j_def)
  have "pow2 k = pow2 (j + (expo ?x - 52))" by (simp add: j_def)
  also have "\<dots> = pow2 j * pow2 (expo ?x - 52)" by (rule pow2_add)
  also have "\<dots> = of_int (2 ^ nat j) * quantum ?x" using j0 by (simp only: pow2_nat quantum_expo)
  finally have "?x = of_int (m * 2 ^ nat j) * quantum ?x" by simp
  then have "fl_mag ?x = ?x" by (rule fl_mag_exact)
  then show ?thesis using x0 by (simp add: fl_def)
qed

lemma f64_decomp:
  assumes "is_f64 x" and "0 \<le> x"
  shows "\<exists>m. 0 \<le> m \<and> m < 2 ^ 53 \<and> x = of_int m * quantum x \<and> (pow2 (- 1022) \<le> x \<longrightarrow> 2 ^ 52 \<le> m)"
proof -
  define m where "m = round_half_even (x / quantum x)"
  have q: "0 < quantum x" by (rule quantum_pos)
  have "fl_mag x = x" using assms by (simp add: is_f64_def fl_def)
  then have x: "x = of_int m * quantum x" by (simp add: fl_mag_def m_def)
  have "0 \<le> x / quantum x" using assms(2) q by simp
  then have m0: "0 \<le> m" using rhe_ge_int [of 0 "x / quantum x"] by (simp add: m_def)
  have up: "m < 2 ^ 53"
  proof (cases "x < pow2 (- 1022)")
    case True
    then have qq: "quantum x = pow2 (- 1074)" by (simp add: quantum_def)
    have "pow2 (- 1022) = pow2 52 * pow2 (- 1074)" using pow2_add [of 52 "- 1074"] by simp
    then have "of_int m * pow2 (- 1074) < pow2 52 * pow2 (- 1074)" using True x qq by simp
    then have "real_of_int m < pow2 52" using pow2_pos [of "- 1074"] by simp
    also have "pow2 52 = of_int (2 ^ 52)" using pow2_nat [of 52] by simp
    finally have "m < 2 ^ 52" by (simp only: of_int_less_iff)
    then show ?thesis by simp
  next
    case False
    then have "x < pow2 (expo x + 1)" using expo_bounds [of x] by simp
    also have "pow2 (expo x + 1) = pow2 53 * pow2 (expo x - 52)"
      using pow2_add [of 53 "expo x - 52"] by (simp add: add.commute)
    finally have "of_int m * quantum x < pow2 53 * quantum x" using x by (simp add: quantum_expo)
    then have "real_of_int m < pow2 53" using q by simp
    then have "real_of_int m < of_int (2 ^ 53)" by (simp only: pow2_53)
    then show ?thesis by (simp only: of_int_less_iff)
  qed
  have lo: "pow2 (- 1022) \<le> x \<longrightarrow> 2 ^ 52 \<le> m"
  proof
    assume n: "pow2 (- 1022) \<le> x"
    then have "pow2 (expo x) \<le> x" using expo_bounds [of x] by simp
    moreover have "pow2 (expo x) = pow2 52 * pow2 (expo x - 52)"
      using pow2_add [of 52 "expo x - 52"] by simp
    ultimately have "pow2 52 * quantum x \<le> of_int m * quantum x" using x by (simp add: quantum_expo)
    then have "pow2 52 \<le> real_of_int m" using q by simp
    moreover have "pow2 52 = of_int (2 ^ 52)" using pow2_nat [of 52] by simp
    ultimately have "(of_int (2 ^ 52) :: real) \<le> of_int m" by simp
    then show "2 ^ 52 \<le> m" by (simp only: of_int_le_iff)
  qed
  show ?thesis using m0 up x lo by blast
qed

lemma f64_scale:
  assumes "is_f64 x" and "0 \<le> x" and "- 1074 \<le> expo x - 52 + j"
  shows "fl (x * pow2 j) = x * pow2 j"
proof -
  from f64_decomp [OF assms(1,2)] obtain m
    where m: "0 \<le> m" "m < 2 ^ 53" and x: "x = of_int m * quantum x" by blast
  have "x * pow2 j = of_int m * (pow2 (expo x - 52) * pow2 j)"
    using x by (simp add: quantum_expo)
  also have "\<dots> = of_int m * pow2 (expo x - 52 + j)" by (simp only: pow2_add)
  finally have e: "x * pow2 j = of_int m * pow2 (expo x - 52 + j)" .
  show ?thesis unfolding e using assms(3) m by (intro fl_int_mult) simp_all
qed

lemma f64_pred:
  assumes "is_f64 x" and "0 < x"
  shows "fl (x - quantum x) = x - quantum x \<and> 0 \<le> x - quantum x"
proof -
  from f64_decomp [of x] assms obtain m
    where m: "0 \<le> m" "m < 2 ^ 53" and x: "x = of_int m * quantum x" by auto
  have q: "0 < quantum x" by (rule quantum_pos)
  have "m \<noteq> 0" using x assms(2) by auto
  then have m1: "1 \<le> m" using m(1) by simp
  have "x - quantum x = of_int m * quantum x - quantum x" using x by simp
  also have "\<dots> = of_int (m - 1) * pow2 (expo x - 52)" by (simp add: quantum_expo algebra_simps)
  finally have e: "x - quantum x = of_int (m - 1) * pow2 (expo x - 52)" .
  have "fl (of_int (m - 1) * pow2 (expo x - 52)) = of_int (m - 1) * pow2 (expo x - 52)"
    using m m1 expo_ge [of x] by (intro fl_int_mult) simp_all
  moreover have "0 \<le> of_int (m - 1) * pow2 (expo x - 52)" using m1 pow2_pos [of "expo x - 52"] by simp
  ultimately show ?thesis by (simp only: e)
qed

lemma f64_succ:
  assumes "is_f64 x" and "0 \<le> x"
  shows "fl (x + quantum x) = x + quantum x"
proof -
  from f64_decomp [OF assms] obtain m
    where m: "0 \<le> m" "m < 2 ^ 53" and x: "x = of_int m * quantum x" by blast
  have "x + quantum x = of_int m * quantum x + quantum x" using x by simp
  also have "\<dots> = of_int (m + 1) * pow2 (expo x - 52)" by (simp add: quantum_expo algebra_simps)
  finally have e: "x + quantum x = of_int (m + 1) * pow2 (expo x - 52)" .
  have "fl (of_int (m + 1) * pow2 (expo x - 52)) = of_int (m + 1) * pow2 (expo x - 52)"
    using m expo_ge [of x] by (intro fl_int_mult) simp_all
  then show ?thesis by (simp only: e)
qed

lemma fl_below:
  assumes "is_f64 x" and "0 < x" and "y \<le> x - quantum x"
  shows "fl y < x"
proof -
  have "fl y \<le> fl (x - quantum x)" using assms(3) by (rule fl_mono)
  also have "\<dots> = x - quantum x" using f64_pred [OF assms(1,2)] by simp
  also have "\<dots> < x" using quantum_pos [of x] by simp
  finally show ?thesis .
qed

lemma fl_above:
  assumes "is_f64 x" and "0 \<le> x" and "x + quantum x \<le> y"
  shows "x < fl y"
proof -
  have "x < x + quantum x" using quantum_pos [of x] by simp
  also have "\<dots> = fl (x + quantum x)" using f64_succ [OF assms(1,2)] by simp
  also have "\<dots> \<le> fl y" using assms(3) by (rule fl_mono)
  finally show ?thesis .
qed

lemma fl_above_neg:
  assumes "is_f64 a" and "0 < a" and "- a + quantum a \<le> y"
  shows "- a < fl y"
proof -
  have "- a < - (a - quantum a)" using quantum_pos [of a] by simp
  also have "\<dots> = - fl (a - quantum a)" using f64_pred [OF assms(1,2)] by simp
  also have "\<dots> = fl (- (a - quantum a))" by (simp only: fl_minus)
  also have "\<dots> \<le> fl y" using assms(3) by (intro fl_mono) simp
  finally show ?thesis .
qed

lemma fl_in_binade:
  assumes "- 1022 \<le> k" and "pow2 k \<le> y" and "y < pow2 (k + 1)"
  shows "fl y = of_int (round_half_even (y / pow2 (k - 52))) * pow2 (k - 52)"
proof -
  have e: "expo y = k" using assms by (rule expo_eqI)
  have "0 < y" using assms(2) pow2_pos [of k] by linarith
  then show ?thesis by (simp add: fl_def fl_mag_def quantum_expo e)
qed

lemma fl_subnormal:
  assumes "0 \<le> y" and "y < pow2 (- 1022)"
  shows "fl y = of_int (round_half_even (y / pow2 (- 1074))) * pow2 (- 1074)"
  using assms by (simp add: fl_def fl_mag_def quantum_def)

lemma c95_exact: "fl (95 / 100) = 8556839292003942 / 9007199254740992"
proof -
  have r: "round_half_even (95 / 100 / pow2 (- 1 - 52)) = 8556839292003942"
    by (rule rhe_near) (simp_all add: pow2_def)
  have "fl (95 / 100) = of_int (round_half_even (95 / 100 / pow2 (- 1 - 52))) * pow2 (- 1 - 52)"
    by (rule fl_in_binade) (simp_all add: pow2_def)
  then show ?thesis unfolding r by (simp add: pow2_def)
qed

lemma c05_exact: "fl (5 / 100) = 7205759403792794 / 144115188075855872"
proof -
  have r: "round_half_even (5 / 100 / pow2 (- 5 - 52)) = 7205759403792794"
    by (rule rhe_near) (simp_all add: pow2_def)
  have "fl (5 / 100) = of_int (round_half_even (5 / 100 / pow2 (- 5 - 52))) * pow2 (- 5 - 52)"
    by (rule fl_in_binade) (simp_all add: pow2_def)
  then show ?thesis unfolding r by (simp add: pow2_def)
qed

lemma c95_sharp: "17 / 18 < fl (95 / 100) \<and> fl (95 / 100) < 19 / 20"
  unfolding c95_exact by simp

lemma c05_sharp: "3 / 64 \<le> fl (5 / 100) \<and> fl (5 / 100) \<le> 13 / 256"
  unfolding c05_exact by simp

lemma valence_shrinks_pos:
  assumes "is_f64 v" and "10 * pow2 (- 1074) \<le> v"
  shows "0 \<le> fl (v * fl (95 / 100)) \<and> fl (v * fl (95 / 100)) < v"
proof -
  let ?c = "fl (95 / 100)"
  have c: "0 \<le> ?c" "?c \<le> 31 / 32" "?c < 19 / 20" using c95_bounds c95_sharp by simp_all
  have v0: "0 < v" using assms(2) pow2_pos [of "- 1074"] by linarith
  then have y0: "0 \<le> v * ?c" using c(1) by simp
  then have nonneg: "0 \<le> fl (v * ?c)" by (rule fl_nonneg)
  from f64_decomp [of v] assms(1) v0 obtain m
    where m: "0 \<le> m" "m < 2 ^ 53" and x: "v = of_int m * quantum v"
      and big: "pow2 (- 1022) \<le> v \<longrightarrow> 2 ^ 52 \<le> m" by auto
  have q: "0 < quantum v" by (rule quantum_pos)
  have "fl (v * ?c) < v"
  proof (cases "pow2 (- 1022) \<le> v")
    case True
    then have "2 ^ 52 \<le> m" using big by simp
    then have "32 \<le> m" by simp
    then have "(32 :: real) \<le> of_int m" by simp
    then have "32 * quantum v \<le> of_int m * quantum v" using q by (simp only: mult_le_cancel_right_pos)
    then have "quantum v \<le> v / 32" using x by simp
    moreover have "v * ?c \<le> v * (31 / 32)" using c(2) v0 by (simp only: mult_le_cancel_left_pos)
    ultimately have "v * ?c \<le> v - quantum v" by simp
    then show ?thesis using assms(1) v0 by (intro fl_below)
  next
    case False
    then have sub: "v < pow2 (- 1022)" by simp
    then have qq: "quantum v = pow2 (- 1074)" by (simp add: quantum_def)
    have p: "0 < pow2 (- 1074)" by (rule pow2_pos)
    have "10 * pow2 (- 1074) \<le> of_int m * pow2 (- 1074)" using assms(2) x qq by simp
    then have m10r: "(10 :: real) \<le> of_int m" using p by (simp only: mult_le_cancel_right_pos)
    have "v * ?c \<le> v * 1" using c v0 by (intro mult_left_mono) simp_all
    then have ys: "v * ?c < pow2 (- 1022)" using sub by simp
    have "v * ?c / pow2 (- 1074) = of_int m * ?c" using x qq p by simp
    then have f: "fl (v * ?c) = of_int (round_half_even (of_int m * ?c)) * pow2 (- 1074)"
      using fl_subnormal [OF y0 ys] by simp
    have "of_int m * (1 - ?c) > of_int m * (1 / 20)" using c(3) m10r by (intro mult_strict_left_mono) simp_all
    then have "of_int m * ?c < of_int m - 1 / 2" using m10r by (simp add: algebra_simps)
    then have "round_half_even (of_int m * ?c) \<le> m - 1" by (rule rhe_below_half)
    then have "(of_int (round_half_even (of_int m * ?c)) :: real) \<le> of_int (m - 1)"
      by (simp only: of_int_le_iff)
    then have "fl (v * ?c) \<le> of_int (m - 1) * pow2 (- 1074)"
      unfolding f using p by (simp only: mult_le_cancel_right_pos)
    also have "\<dots> < of_int m * pow2 (- 1074)" using p by simp
    finally show ?thesis using x qq by simp
  qed
  then show ?thesis using nonneg by simp
qed

lemma valence_shrinks:
  assumes "is_f64 v" and "10 * pow2 (- 1074) \<le> \<bar>v\<bar>"
  shows "\<bar>f64_mul v (fl (95 / 100))\<bar> < \<bar>v\<bar>"
proof (cases "0 \<le> v")
  case True
  then show ?thesis using valence_shrinks_pos [of v] assms by (simp add: f64_mul_def)
next
  case False
  then have n: "v < 0" by simp
  have "is_f64 (- v)" using assms(1) by (simp add: is_f64_minus)
  moreover have "10 * pow2 (- 1074) \<le> - v" using assms(2) n by simp
  ultimately have "0 \<le> fl (- v * fl (95 / 100)) \<and> fl (- v * fl (95 / 100)) < - v"
    by (rule valence_shrinks_pos)
  moreover have "fl (- v * fl (95 / 100)) = - fl (v * fl (95 / 100))"
    using fl_minus [of "v * fl (95 / 100)"] by simp
  ultimately show ?thesis using n by (simp add: f64_mul_def)
qed

lemma addend_bounds:
  assumes "fl L = L" and "fl U = U" and "L \<le> z" and "z \<le> U"
  shows "L \<le> (if fused then z else fl z) \<and> (if fused then z else fl z) \<le> U"
  using fl_mono [OF assms(3)] fl_mono [OF assms(4)] assms by auto

lemma f64_add_mul_alt:
  "f64_add_mul fused x d c = fl (x + (if fused then d * c else fl (d * c)))"
  by (simp add: f64_add_mul_def f64_add_def f64_mul_def)

lemma decay_above_near:
  assumes "is_f64 x" and "1 / 2 + 11 * pow2 (- 53) \<le> x" and "x < 1"
  shows "1 / 2 \<le> f64_add_mul fused x (f64_sub (1 / 2) x) (fl (5 / 100)) \<and>
         f64_add_mul fused x (f64_sub (1 / 2) x) (fl (5 / 100)) < x"
proof -
  let ?c = "fl (5 / 100)"
  have c: "3 / 64 \<le> ?c" "?c \<le> 1 / 16" using c05_sharp c05_bounds by simp_all
  have p53: "pow2 (- 53) = 1 / 9007199254740992" by (simp add: pow2_def)
  have xh: "1 / 2 \<le> x" using assms(2) pow2_pos [of "- 53"] by linarith
  have e: "expo x = - 1" using xh assms(3) by (intro expo_eqI) (simp_all add: pow2_def)
  have qx: "quantum x = pow2 (- 53)" by (simp add: quantum_expo e)
  from f64_decomp [of x] assms(1) xh obtain m
    where m: "0 \<le> m" "m < 2 ^ 53" and x: "x = of_int m * quantum x" by auto
  have xm: "x = of_int m / 9007199254740992" using x by (simp add: qx p53)
  define j where "j = m - 2 ^ 52"
  have "(4503599627370496 + 11) / 9007199254740992 \<le> real_of_int m / 9007199254740992"
    using assms(2) by (simp add: xm p53)
  then have "real_of_int (4503599627370496 + 11) \<le> real_of_int m" by simp
  then have "4503599627370496 + 11 \<le> m" by (simp only: of_int_le_iff)
  then have j11: "11 \<le> j" by (simp add: j_def)
  have jup: "j \<le> 2 ^ 53" using m(2) by (simp add: j_def)
  define \<delta> where "\<delta> = of_int j * pow2 (- 53)"
  have d: "\<delta> = x - 1 / 2" by (simp add: \<delta>_def j_def xm p53 field_simps)
  have d11: "11 * pow2 (- 53) \<le> \<delta>" using assms(2) d by simp
  have "fl \<delta> = \<delta>" unfolding \<delta>_def using j11 jup by (intro fl_int_mult) simp_all
  then have D: "f64_sub (1 / 2) x = - \<delta>"
    using fl_minus [of \<delta>] by (simp add: f64_sub_def d)
  define L where "L = - (of_int j * pow2 (- 57))"
  define U where "U = - (of_int 33 * pow2 (- 59))"
  have "fl (of_int j * pow2 (- 57)) = of_int j * pow2 (- 57)"
    using j11 jup by (intro fl_int_mult) simp_all
  then have fL: "fl L = L" by (simp add: L_def fl_minus)
  have "fl (of_int 33 * pow2 (- 59)) = of_int 33 * pow2 (- 59)"
    by (intro fl_int_mult) simp_all
  then have fU: "fl U = U" by (simp only: U_def fl_minus)
  have L16: "L = - (\<delta> / 16)" by (simp add: L_def \<delta>_def pow2_def)
  have Uv: "U = - (33 / 576460752303423488)" by (simp add: U_def pow2_def)
  have d0: "0 \<le> \<delta>" using d xh by simp
  have "\<delta> * ?c \<le> \<delta> * (1 / 16)" using c(2) d0 by (rule mult_left_mono)
  then have zl: "L \<le> - \<delta> * ?c" by (simp add: L16)
  have "\<delta> * (3 / 64) \<le> \<delta> * ?c" using c(1) d0 by (rule mult_left_mono)
  moreover have "11 / 9007199254740992 \<le> \<delta>" using d11 by (simp add: p53)
  ultimately have zu: "- \<delta> * ?c \<le> U" unfolding Uv by linarith
  define T where "T = (if fused then - \<delta> * ?c else fl (- \<delta> * ?c))"
  have T: "L \<le> T" "T \<le> U" using addend_bounds [OF fL fU zl zu, of fused] by (simp_all add: T_def)
  have r: "f64_add_mul fused x (f64_sub (1 / 2) x) ?c = fl (x + T)"
    by (simp add: f64_add_mul_alt D T_def)
  have lo: "1 / 2 \<le> x + T" using T(1) d d0 unfolding L16 by linarith
  have hi: "x + T < 1" using T(2) assms(3) unfolding Uv by linarith
  have f: "fl (x + T) = of_int (round_half_even ((x + T) / pow2 (- 1 - 52))) * pow2 (- 1 - 52)"
    using lo hi by (intro fl_in_binade) (simp_all add: pow2_def)
  have "(x + T) / pow2 (- 1 - 52) = of_int m + T * 9007199254740992"
    by (simp add: xm pow2_def field_simps)
  moreover have "T * 9007199254740992 \<le> - (33 / 64)" using T(2) unfolding Uv by linarith
  ultimately have "(x + T) / pow2 (- 1 - 52) < of_int m - 1 / 2" by linarith
  then have "round_half_even ((x + T) / pow2 (- 1 - 52)) \<le> m - 1" by (rule rhe_below_half)
  then have "(of_int (round_half_even ((x + T) / pow2 (- 1 - 52))) :: real) \<le> of_int (m - 1)"
    by (simp only: of_int_le_iff)
  then have "fl (x + T) \<le> of_int (m - 1) * pow2 (- 1 - 52)"
    unfolding f using pow2_pos [of "- 1 - 52"] by (simp only: mult_le_cancel_right_pos)
  also have "\<dots> < x" by (simp add: xm pow2_def field_simps)
  finally have less: "fl (x + T) < x" .
  have "fl (1 / 2) \<le> fl (x + T)" using lo by (rule fl_mono)
  then have "1 / 2 \<le> fl (x + T)" by (simp add: fl_half)
  then show ?thesis using less by (simp only: r) 
qed

lemma expo_one: "expo 1 = 0"
  by (rule expo_eqI) (simp_all add: pow2_def)

lemma expo_half: "expo (1 / 2) = - 1"
  by (rule expo_eqI) (simp_all add: pow2_def)

lemma expo_quarter: "expo (1 / 4) = - 2"
  by (rule expo_eqI) (simp_all add: pow2_def)

lemma pow2_52: "pow2 52 = 4503599627370496"
  by (simp add: pow2_def)

lemma normal_ge_quantum:
  assumes "pow2 (- 1022) \<le> a"
  shows "4503599627370496 * quantum a \<le> a"
proof -
  have "pow2 (expo a) \<le> a" using expo_bounds [OF assms] by simp
  moreover have "pow2 (expo a) = pow2 52 * pow2 (expo a - 52)"
    using pow2_add [of 52 "expo a - 52"] by simp
  ultimately show ?thesis by (simp add: quantum_expo pow2_52)
qed

lemma decay_above_far:
  assumes "is_f64 x" and "1 \<le> x"
  shows "1 / 2 \<le> f64_add_mul fused x (f64_sub (1 / 2) x) (fl (5 / 100)) \<and>
         f64_add_mul fused x (f64_sub (1 / 2) x) (fl (5 / 100)) < x"
proof -
  let ?c = "fl (5 / 100)"
  have c: "1 / 32 \<le> ?c" "?c \<le> 1 / 16" using c05_bounds by simp_all
  have x0: "0 < x" "0 \<le> x" using assms(2) by simp_all
  have e0: "0 \<le> expo x" using expo_mono [OF assms(2)] by (simp add: expo_one)
  have q: "0 < quantum x" by (rule quantum_pos)
  have "pow2 (- 1022) \<le> 1" using pow2_mono [of "- 1022" 0] by (simp add: pow2_def)
  then have "pow2 (- 1022) \<le> x" using assms(2) by linarith
  then have xq: "4503599627370496 * quantum x \<le> x" by (rule normal_ge_quantum)
  have "fl (x * pow2 (- 1)) = x * pow2 (- 1)" using assms(1) x0(2) e0 by (intro f64_scale) simp_all
  then have h2: "fl (x / 2) = x / 2" by (simp add: pow2_def)
  have "fl (x * pow2 (- 4)) = x * pow2 (- 4)" using assms(1) x0(2) e0 by (intro f64_scale) simp_all
  then have h16: "fl (x / 16) = x / 16" by (simp add: pow2_def)
  define D where "D = fl (x - 1 / 2)"
  have "fl (x / 2) \<le> D" unfolding D_def using assms(2) by (intro fl_mono) simp
  then have D1: "x / 2 \<le> D" by (simp only: h2)
  have "D \<le> fl x" unfolding D_def by (intro fl_mono) simp
  then have D2: "D \<le> x" using assms(1) by (simp add: is_f64_def)
  have D0: "0 \<le> D" using D1 x0 by linarith
  have "f64_sub (1 / 2) x = fl (- (x - 1 / 2))" by (simp add: f64_sub_def)
  then have S: "f64_sub (1 / 2) x = - D" by (simp only: fl_minus D_def)
  define L where "L = - (x / 16)"
  define U where "U = - quantum x"
  have fL: "fl L = L" by (simp add: L_def fl_minus h16)
  have "fl (pow2 (expo x - 52)) = pow2 (expo x - 52)" using e0 by (intro fl_pow2) simp
  then have fU: "fl U = U" by (simp add: U_def fl_minus quantum_expo)
  have "D * ?c \<le> x * (1 / 16)" using D2 c D0 x0 by (intro mult_mono) simp_all
  then have zl: "L \<le> - D * ?c" by (simp add: L_def)
  have "(x / 2) * (1 / 32) \<le> D * ?c" using D1 c x0 D0 by (intro mult_mono) simp_all
  then have zu: "- D * ?c \<le> U" unfolding U_def using xq q by linarith
  define T where "T = (if fused then - D * ?c else fl (- D * ?c))"
  have T: "L \<le> T" "T \<le> U" using addend_bounds [OF fL fU zl zu, of fused] by (simp_all add: T_def)
  have r: "f64_add_mul fused x (f64_sub (1 / 2) x) ?c = fl (x + T)"
    by (simp add: f64_add_mul_alt S T_def)
  have "x + T \<le> x - quantum x" using T(2) by (simp add: U_def)
  then have less: "fl (x + T) < x" using assms(1) x0(1) by (intro fl_below)
  have "1 / 2 \<le> x + T" using T(1) assms(2) unfolding L_def by linarith
  then have "fl (1 / 2) \<le> fl (x + T)" by (rule fl_mono)
  then have "1 / 2 \<le> fl (x + T)" by (simp add: fl_half)
  then show ?thesis using less by (simp only: r)
qed

lemma decay_below_near:
  assumes "is_f64 x" and "1 / 4 \<le> x" and "x \<le> 1 / 2 - 11 * pow2 (- 54)"
  shows "x < f64_add_mul fused x (f64_sub (1 / 2) x) (fl (5 / 100)) \<and>
         f64_add_mul fused x (f64_sub (1 / 2) x) (fl (5 / 100)) \<le> 1 / 2"
proof -
  let ?c = "fl (5 / 100)"
  have c: "3 / 64 \<le> ?c" "?c \<le> 1 / 16" using c05_sharp c05_bounds by simp_all
  have p54: "pow2 (- 54) = 1 / 18014398509481984" by (simp add: pow2_def)
  have xh: "x < 1 / 2" using assms(3) pow2_pos [of "- 54"] by linarith
  have x0: "0 \<le> x" using assms(2) by simp
  have e: "expo x = - 2" using xh assms(2) by (intro expo_eqI) (simp_all add: pow2_def)
  have qx: "quantum x = pow2 (- 54)" by (simp add: quantum_expo e)
  from f64_decomp [OF assms(1) x0] obtain m
    where m: "0 \<le> m" "m < 2 ^ 53" and x: "x = of_int m * quantum x" by auto
  have xm: "x = of_int m / 18014398509481984" using x by (simp add: qx p54)
  define j where "j = 2 ^ 53 - m"
  have "real_of_int m / 18014398509481984 \<le> (9007199254740992 - 11) / 18014398509481984"
    using assms(3) by (simp add: xm p54)
  then have "real_of_int m \<le> real_of_int (9007199254740992 - 11)" by simp
  then have "m \<le> 9007199254740992 - 11" by (simp only: of_int_le_iff)
  then have j11: "11 \<le> j" by (simp add: j_def)
  have jup: "j \<le> 2 ^ 53" using m(1) by (simp add: j_def)
  define \<delta> where "\<delta> = of_int j * pow2 (- 54)"
  have d: "\<delta> = 1 / 2 - x" by (simp add: \<delta>_def j_def xm p54 field_simps)
  have d11: "11 / 18014398509481984 \<le> \<delta>" using assms(3) d by (simp add: p54)
  have "fl \<delta> = \<delta>" unfolding \<delta>_def using j11 jup by (intro fl_int_mult) simp_all
  then have D: "f64_sub (1 / 2) x = \<delta>" by (simp add: f64_sub_def d)
  define U where "U = of_int j * pow2 (- 58)"
  define L where "L = of_int 33 * pow2 (- 60)"
  have fU: "fl U = U" unfolding U_def using j11 jup by (intro fl_int_mult) simp_all
  have fL: "fl L = L" unfolding L_def by (intro fl_int_mult) simp_all
  have U16: "U = \<delta> / 16" by (simp add: U_def \<delta>_def pow2_def)
  have Lv: "L = 33 / 1152921504606846976" by (simp add: L_def pow2_def)
  have d0: "0 \<le> \<delta>" using d xh by simp
  have "\<delta> * ?c \<le> \<delta> * (1 / 16)" using c(2) d0 by (rule mult_left_mono)
  then have zu: "\<delta> * ?c \<le> U" by (simp add: U16)
  have "\<delta> * (3 / 64) \<le> \<delta> * ?c" using c(1) d0 by (rule mult_left_mono)
  then have zl: "L \<le> \<delta> * ?c" unfolding Lv using d11 by linarith
  define T where "T = (if fused then \<delta> * ?c else fl (\<delta> * ?c))"
  have T: "L \<le> T" "T \<le> U" using addend_bounds [OF fL fU zl zu, of fused] by (simp_all add: T_def)
  have r: "f64_add_mul fused x (f64_sub (1 / 2) x) ?c = fl (x + T)"
    by (simp add: f64_add_mul_alt D T_def)
  have lo: "1 / 4 \<le> x + T" using T(1) assms(2) unfolding Lv by linarith
  have hi: "x + T < 1 / 2" using T(2) d d11 unfolding U16 by linarith
  have f: "fl (x + T) = of_int (round_half_even ((x + T) / pow2 (- 2 - 52))) * pow2 (- 2 - 52)"
    using lo hi by (intro fl_in_binade) (simp_all add: pow2_def)
  have "(x + T) / pow2 (- 2 - 52) = of_int m + T * 18014398509481984"
    by (simp add: xm pow2_def field_simps)
  moreover have "33 / 64 \<le> T * 18014398509481984" using T(1) unfolding Lv by linarith
  ultimately have "of_int m + 1 / 2 < (x + T) / pow2 (- 2 - 52)" by linarith
  then have "m + 1 \<le> round_half_even ((x + T) / pow2 (- 2 - 52))" by (rule rhe_above_half)
  then have "(of_int (m + 1) :: real) \<le> of_int (round_half_even ((x + T) / pow2 (- 2 - 52)))"
    by (simp only: of_int_le_iff)
  then have "of_int (m + 1) * pow2 (- 2 - 52) \<le> fl (x + T)"
    unfolding f using pow2_pos [of "- 2 - 52"] by (simp only: mult_le_cancel_right_pos)
  moreover have "x < of_int (m + 1) * pow2 (- 2 - 52)" by (simp add: xm pow2_def field_simps)
  ultimately have less: "x < fl (x + T)" by linarith
  have "fl (x + T) \<le> fl (1 / 2)" using hi by (intro fl_mono) simp
  then have "fl (x + T) \<le> 1 / 2" by (simp add: fl_half)
  then show ?thesis using less by (simp only: r)
qed

lemma decay_below_small:
  assumes "is_f64 x" and "0 \<le> x" and "x < 1 / 4"
  shows "x < f64_add_mul fused x (f64_sub (1 / 2) x) (fl (5 / 100)) \<and>
         f64_add_mul fused x (f64_sub (1 / 2) x) (fl (5 / 100)) \<le> 1 / 2"
proof -
  let ?c = "fl (5 / 100)"
  have c: "1 / 32 \<le> ?c" "?c \<le> 1 / 16" using c05_bounds by simp_all
  define D where "D = fl (1 / 2 - x)"
  have f4: "fl (1 / 4) = 1 / 4" using fl_pow2 [of "- 2"] by (simp add: pow2_def)
  have "fl (1 / 4) \<le> D" unfolding D_def using assms(3) by (intro fl_mono) simp
  then have D1: "1 / 4 \<le> D" by (simp only: f4)
  have "D \<le> fl (1 / 2)" unfolding D_def using assms(2) by (intro fl_mono) simp
  then have D2: "D \<le> 1 / 2" by (simp only: fl_half)
  have S: "f64_sub (1 / 2) x = D" by (simp add: f64_sub_def D_def)
  have fL: "fl (1 / 128) = 1 / 128" using fl_pow2 [of "- 7"] by (simp add: pow2_def)
  have fU: "fl (1 / 32) = 1 / 32" by (rule fl_1_32)
  have "(1 / 4) * (1 / 32) \<le> D * ?c" using D1 c by (intro mult_mono) simp_all
  then have zl: "1 / 128 \<le> D * ?c" by simp
  have "D * ?c \<le> (1 / 2) * (1 / 16)" using D1 D2 c by (intro mult_mono) simp_all
  then have zu: "D * ?c \<le> 1 / 32" by simp
  define T where "T = (if fused then D * ?c else fl (D * ?c))"
  have T: "1 / 128 \<le> T" "T \<le> 1 / 32"
    using addend_bounds [OF fL fU zl zu, of fused] by (simp_all add: T_def)
  have r: "f64_add_mul fused x (f64_sub (1 / 2) x) ?c = fl (x + T)"
    by (simp add: f64_add_mul_alt S T_def)
  have "expo x \<le> - 2" using expo_mono [of x "1 / 4"] assms(3) by (simp add: expo_quarter)
  then have "quantum x \<le> pow2 (- 54)" unfolding quantum_expo by (intro pow2_mono) simp
  also have "pow2 (- 54) \<le> 1 / 128" by (simp add: pow2_def)
  finally have "x + quantum x \<le> x + T" using T(1) by linarith
  then have less: "x < fl (x + T)" using assms(1,2) by (intro fl_above)
  have "fl (x + T) \<le> fl (1 / 2)" using T(2) assms(3) by (intro fl_mono) linarith
  then have "fl (x + T) \<le> 1 / 2" by (simp add: fl_half)
  then show ?thesis using less by (simp only: r)
qed

lemma decay_below_neg:
  assumes "is_f64 x" and "x < 0"
  shows "x < f64_add_mul fused x (f64_sub (1 / 2) x) (fl (5 / 100)) \<and>
         f64_add_mul fused x (f64_sub (1 / 2) x) (fl (5 / 100)) \<le> 1 / 2"
proof -
  let ?c = "fl (5 / 100)"
  have c: "1 / 32 \<le> ?c" "?c \<le> 1 / 16" using c05_bounds by simp_all
  define a where "a = - x"
  have a0: "0 < a" "0 \<le> a" using assms(2) by (simp_all add: a_def)
  have fa: "is_f64 a" using assms(1) by (simp add: a_def is_f64_minus)
  define D where "D = fl (1 / 2 + a)"
  have S: "f64_sub (1 / 2) x = D" by (simp add: f64_sub_def D_def a_def)
  define T where "T = (if fused then D * ?c else fl (D * ?c))"
  have r: "f64_add_mul fused x (f64_sub (1 / 2) x) ?c = fl (x + T)"
    by (simp add: f64_add_mul_alt S T_def)
  have T: "quantum a \<le> T \<and> x + T \<le> 1 / 2"
  proof (cases "a \<le> 1 / 2")
    case True
    have "fl (1 / 2) \<le> D" unfolding D_def using a0 by (intro fl_mono) simp
    then have D1: "1 / 2 \<le> D" by (simp only: fl_half)
    have "D \<le> fl 1" unfolding D_def using True by (intro fl_mono) simp
    then have D2: "D \<le> 1" by (simp only: fl_one)
    have fL: "fl (1 / 64) = 1 / 64" using fl_pow2 [of "- 6"] by (simp add: pow2_def)
    have fU: "fl (1 / 16) = 1 / 16" by (rule fl_1_16)
    have "(1 / 2) * (1 / 32) \<le> D * ?c" using D1 c by (intro mult_mono) simp_all
    then have zl: "1 / 64 \<le> D * ?c" by simp
    have "D * ?c \<le> 1 * (1 / 16)" using D1 D2 c by (intro mult_mono) simp_all
    then have zu: "D * ?c \<le> 1 / 16" by simp
    have TT: "1 / 64 \<le> T" "T \<le> 1 / 16"
      using addend_bounds [OF fL fU zl zu, of fused] by (simp_all add: T_def)
    have "expo a \<le> - 1" using expo_mono [OF True] by (simp add: expo_half)
    then have "quantum a \<le> pow2 (- 53)" unfolding quantum_expo by (intro pow2_mono) simp
    also have "pow2 (- 53) \<le> 1 / 64" by (simp add: pow2_def)
    finally have "quantum a \<le> T" using TT(1) by linarith
    moreover have "x + T \<le> 1 / 2" using TT(2) assms(2) by linarith
    ultimately show ?thesis by simp
  next
    case False
    then have ah: "1 / 2 \<le> a" by simp
    have e: "- 1 \<le> expo a" using expo_mono [OF ah] by (simp add: expo_half)
    have "pow2 (- 1022) \<le> 1 / 2" using pow2_mono [of "- 1022" "- 1"] by (simp add: pow2_def)
    then have "pow2 (- 1022) \<le> a" using ah by linarith
    then have aq: "4503599627370496 * quantum a \<le> a" by (rule normal_ge_quantum)
    have q: "0 < quantum a" by (rule quantum_pos)
    have "fl (a * pow2 1) = a * pow2 1" using fa a0(2) e by (intro f64_scale) simp_all
    then have h2: "fl (2 * a) = 2 * a" by (simp add: pow2_def mult.commute)
    have "fl (a * pow2 (- 3)) = a * pow2 (- 3)" using fa a0(2) e by (intro f64_scale) simp_all
    then have h8: "fl (a / 8) = a / 8" by (simp add: pow2_def)
    have "fl a \<le> D" unfolding D_def by (intro fl_mono) simp
    then have D1: "a \<le> D" using fa by (simp add: is_f64_def)
    have "D \<le> fl (2 * a)" unfolding D_def using ah by (intro fl_mono) simp
    then have D2: "D \<le> 2 * a" by (simp only: h2)
    have D0: "0 \<le> D" using D1 a0 by linarith
    have "fl (pow2 (expo a - 52)) = pow2 (expo a - 52)" using e by (intro fl_pow2) simp
    then have fL: "fl (quantum a) = quantum a" by (simp add: quantum_expo)
    have "a * (1 / 32) \<le> D * ?c" using D1 c a0 D0 by (intro mult_mono) simp_all
    then have zl: "quantum a \<le> D * ?c" using aq q by linarith
    have "D * ?c \<le> (2 * a) * (1 / 16)" using D2 c D0 a0 by (intro mult_mono) simp_all
    then have zu: "D * ?c \<le> a / 8" by simp
    have TT: "quantum a \<le> T" "T \<le> a / 8"
      using addend_bounds [OF fL h8 zl zu, of fused] by (simp_all add: T_def)
    have "x + T \<le> 1 / 2" using TT(2) a0 unfolding a_def by linarith
    then show ?thesis using TT(1) by simp
  qed
  then have "- a + quantum a \<le> x + T" by (simp add: a_def)
  then have "- a < fl (x + T)" using fa a0(1) by (intro fl_above_neg)
  then have less: "x < fl (x + T)" by (simp add: a_def)
  have "fl (x + T) \<le> fl (1 / 2)" using T by (intro fl_mono) simp
  then have "fl (x + T) \<le> 1 / 2" by (simp add: fl_half)
  then show ?thesis using less by (simp only: r)
qed

lemma decay_strict:
  assumes "is_f64 x" and "1 / 2 + 11 * pow2 (- 53) \<le> x \<or> x \<le> 1 / 2 - 11 * pow2 (- 54)"
  shows "\<bar>f64_add_mul fused x (f64_sub (1 / 2) x) (fl (5 / 100)) - 1 / 2\<bar> < \<bar>x - 1 / 2\<bar>"
proof -
  let ?g = "f64_add_mul fused x (f64_sub (1 / 2) x) (fl (5 / 100))"
  have p: "0 < pow2 (- 53)" "0 < pow2 (- 54)" by (rule pow2_pos)+
  from assms(2) show ?thesis
  proof
    assume h: "1 / 2 + 11 * pow2 (- 53) \<le> x"
    have "1 / 2 \<le> ?g \<and> ?g < x"
    proof (cases "x < 1")
      case True
      then show ?thesis using assms(1) h by (intro decay_above_near)
    next
      case False
      then show ?thesis using assms(1) by (intro decay_above_far) simp_all
    qed
    then show ?thesis by linarith
  next
    assume h: "x \<le> 1 / 2 - 11 * pow2 (- 54)"
    have "x < ?g \<and> ?g \<le> 1 / 2"
    proof (cases "x < 0")
      case True
      then show ?thesis using assms(1) by (intro decay_below_neg)
    next
      case nn: False
      show ?thesis
      proof (cases "x < 1 / 4")
        case True
        then show ?thesis using assms(1) nn by (intro decay_below_small) simp_all
      next
        case False
        then show ?thesis using assms(1) h by (intro decay_below_near) simp_all
      qed
    qed
    then show ?thesis using h p by linarith
  qed
qed

lemma fl_sticky:
  assumes "- 1022 \<le> k" and "x = of_int m * pow2 (k - 52)"
    and "pow2 k \<le> x + T" and "x + T < pow2 (k + 1)"
    and "- (pow2 (k - 52) / 2) < T" and "T < pow2 (k - 52) / 2"
  shows "fl (x + T) = x"
proof -
  have p: "0 < pow2 (k - 52)" by (rule pow2_pos)
  have "(x + T) / pow2 (k - 52) = of_int m + T / pow2 (k - 52)"
    using p by (simp add: assms(2) field_simps)
  moreover have "- (1 / 2) < T / pow2 (k - 52)" using assms(5) p by (simp add: field_simps)
  moreover have "T / pow2 (k - 52) < 1 / 2" using assms(6) p by (simp add: field_simps)
  ultimately have "round_half_even ((x + T) / pow2 (k - 52)) = m"
    by (intro rhe_near) linarith+
  then show ?thesis using fl_in_binade [OF assms(1,3,4)] assms(2) by simp
qed

lemma near_valence:
  "is_f64 (9 * pow2 (- 1074)) \<and> f64_mul (9 * pow2 (- 1074)) (fl (95 / 100)) = 9 * pow2 (- 1074)"
proof -
  let ?c = "fl (95 / 100)"
  let ?v = "9 * pow2 (- 1074)"
  have c: "17 / 18 < ?c" "?c < 19 / 20" using c95_sharp by simp_all
  have p: "0 < pow2 (- 1074)" by (rule pow2_pos)
  have "fl (of_int 9 * pow2 (- 1074)) = of_int 9 * pow2 (- 1074)" by (intro fl_int_mult) simp_all
  then have rep: "is_f64 ?v" by (simp add: is_f64_def)
  have "pow2 (- 1022) = pow2 52 * pow2 (- 1074)" using pow2_add [of 52 "- 1074"] by simp
  then have big: "pow2 (- 1022) = 4503599627370496 * pow2 (- 1074)" by (simp only: pow2_52)
  have y0: "0 \<le> ?v * ?c" using p c by simp
  have "?v * ?c \<le> ?v * 1" using p c by (intro mult_left_mono) simp_all
  then have ys: "?v * ?c < pow2 (- 1022)" using p unfolding big by linarith
  have "?v * ?c / pow2 (- 1074) = 9 * ?c" using p by simp
  then have f: "fl (?v * ?c) = of_int (round_half_even (9 * ?c)) * pow2 (- 1074)"
    using fl_subnormal [OF y0 ys] by simp
  have "round_half_even (9 * ?c) = 9" using c by (intro rhe_near) simp_all
  then have "fl (?v * ?c) = ?v" unfolding f by simp
  then show ?thesis using rep by (simp add: f64_mul_def)
qed

lemma near_energy:
  "is_f64 (1 / 2 + 9 * pow2 (- 53)) \<and>
   f64_add_mul fused (1 / 2 + 9 * pow2 (- 53)) (f64_sub (1 / 2) (1 / 2 + 9 * pow2 (- 53)))
     (fl (5 / 100)) = 1 / 2 + 9 * pow2 (- 53)"
proof -
  let ?c = "fl (5 / 100)"
  let ?x = "1 / 2 + 9 * pow2 (- 53)"
  have c: "3 / 64 \<le> ?c" "?c \<le> 13 / 256" using c05_sharp by simp_all
  have p53: "pow2 (- 53) = 1 / 9007199254740992" by (simp add: pow2_def)
  have xm: "?x = of_int (2 ^ 52 + 9) * pow2 (- 1 - 52)" by (simp add: pow2_def)
  have "fl (of_int (2 ^ 52 + 9) * pow2 (- 1 - 52)) = of_int (2 ^ 52 + 9) * pow2 (- 1 - 52)"
    by (intro fl_int_mult) simp_all
  then have rep: "is_f64 ?x" unfolding is_f64_def by (simp only: xm)
  define \<delta> where "\<delta> = of_int 9 * pow2 (- 53)"
  have dv: "\<delta> = 9 / 9007199254740992" by (simp add: \<delta>_def p53)
  have "fl \<delta> = \<delta>" unfolding \<delta>_def by (intro fl_int_mult) simp_all
  then have "fl (- \<delta>) = - \<delta>" by (simp only: fl_minus)
  moreover have "1 / 2 - ?x = - \<delta>" by (simp add: \<delta>_def)
  ultimately have D: "f64_sub (1 / 2) ?x = - \<delta>" by (simp only: f64_sub_def)
  define L where "L = - (of_int 117 * pow2 (- 61))"
  have "fl (of_int 117 * pow2 (- 61)) = of_int 117 * pow2 (- 61)" by (intro fl_int_mult) simp_all
  then have fL: "fl L = L" by (simp only: L_def fl_minus)
  have Lv: "L = - (117 / 2305843009213693952)" by (simp add: L_def pow2_def)
  have "\<delta> * ?c \<le> \<delta> * (13 / 256)" using c(2) by (intro mult_left_mono) (simp_all add: dv)
  then have zl: "L \<le> - \<delta> * ?c" unfolding Lv dv by linarith
  have "0 \<le> \<delta> * ?c" using c(1) by (simp add: dv)
  then have zu: "- \<delta> * ?c \<le> 0" by simp
  define T where "T = (if fused then - \<delta> * ?c else fl (- \<delta> * ?c))"
  have T: "L \<le> T" "T \<le> 0"
    using addend_bounds [OF fL fl_zero zl zu, of fused] by (simp_all add: T_def)
  have r: "f64_add_mul fused ?x (f64_sub (1 / 2) ?x) ?c = fl (?x + T)"
    by (simp only: f64_add_mul_alt D T_def)
  have "fl (?x + T) = ?x"
  proof (rule fl_sticky [of "- 1" _ "2 ^ 52 + 9"])
    show "?x = of_int (2 ^ 52 + 9) * pow2 (- 1 - 52)" by (rule xm)
    show "pow2 (- 1) \<le> ?x + T" using T(1) unfolding Lv by (simp add: pow2_def)
    show "?x + T < pow2 (- 1 + 1)" using T(2) by (simp add: pow2_def)
    show "- (pow2 (- 1 - 52) / 2) < T" using T(1) unfolding Lv by (simp add: pow2_def)
    show "T < pow2 (- 1 - 52) / 2" using T(2) by (simp add: pow2_def)
  qed simp
  then show ?thesis using rep by (simp only: r)
qed

lemma near_sociability:
  "is_f64 (1 / 2 - 9 * pow2 (- 54)) \<and>
   f64_add_mul fused (1 / 2 - 9 * pow2 (- 54)) (f64_sub (1 / 2) (1 / 2 - 9 * pow2 (- 54)))
     (fl (5 / 100)) = 1 / 2 - 9 * pow2 (- 54)"
proof -
  let ?c = "fl (5 / 100)"
  let ?x = "1 / 2 - 9 * pow2 (- 54)"
  have c: "3 / 64 \<le> ?c" "?c \<le> 13 / 256" using c05_sharp by simp_all
  have p54: "pow2 (- 54) = 1 / 18014398509481984" by (simp add: pow2_def)
  have xm: "?x = of_int (2 ^ 53 - 9) * pow2 (- 2 - 52)" by (simp add: pow2_def)
  have "fl (of_int (2 ^ 53 - 9) * pow2 (- 2 - 52)) = of_int (2 ^ 53 - 9) * pow2 (- 2 - 52)"
    by (intro fl_int_mult) simp_all
  then have rep: "is_f64 ?x" unfolding is_f64_def by (simp only: xm)
  define \<delta> where "\<delta> = of_int 9 * pow2 (- 54)"
  have dv: "\<delta> = 9 / 18014398509481984" by (simp add: \<delta>_def p54)
  have "fl \<delta> = \<delta>" unfolding \<delta>_def by (intro fl_int_mult) simp_all
  moreover have "1 / 2 - ?x = \<delta>" by (simp add: \<delta>_def)
  ultimately have D: "f64_sub (1 / 2) ?x = \<delta>" by (simp only: f64_sub_def)
  define U where "U = of_int 117 * pow2 (- 62)"
  have fU: "fl U = U" unfolding U_def by (intro fl_int_mult) simp_all
  have Uv: "U = 117 / 4611686018427387904" by (simp add: U_def pow2_def)
  have "\<delta> * ?c \<le> \<delta> * (13 / 256)" using c(2) by (intro mult_left_mono) (simp_all add: dv)
  then have zu: "\<delta> * ?c \<le> U" unfolding Uv dv by linarith
  have zl: "0 \<le> \<delta> * ?c" using c(1) by (simp add: dv)
  define T where "T = (if fused then \<delta> * ?c else fl (\<delta> * ?c))"
  have T: "0 \<le> T" "T \<le> U"
    using addend_bounds [OF fl_zero fU zl zu, of fused] by (simp_all add: T_def)
  have r: "f64_add_mul fused ?x (f64_sub (1 / 2) ?x) ?c = fl (?x + T)"
    by (simp only: f64_add_mul_alt D T_def)
  have "fl (?x + T) = ?x"
  proof (rule fl_sticky [of "- 2" _ "2 ^ 53 - 9"])
    show "?x = of_int (2 ^ 53 - 9) * pow2 (- 2 - 52)" by (rule xm)
    show "pow2 (- 2) \<le> ?x + T" using T(1) by (simp add: pow2_def)
    show "?x + T < pow2 (- 2 + 1)" using T(2) unfolding Uv by (simp add: pow2_def)
    show "- (pow2 (- 2 - 52) / 2) < T" using T(1) by (simp add: pow2_def)
    show "T < pow2 (- 2 - 52) / 2" using T(2) unfolding Uv by (simp add: pow2_def)
  qed simp
  then show ?thesis using rep by (simp only: r)
qed

text \<open>
  The claim that one application strictly reduces the distance of every component from
  its fixpoint unless it is there fails in binary64. The least positive number, \<open>2\<close>
  to the power \<open>-1074\<close>, times \<open>0.95\<close> rounds back to itself; and in the row
  \<open>mood_near\<close>, whose \<open>valence\<close> is nine quanta from \<open>0\<close> and whose \<open>energy\<close>
  and \<open>sociability\<close> are nine quanta above and below \<open>0.5\<close>, every component
  rounds back to the value it had, fused or not. \<open>ApplyMoodDecay\<close> writes what it read.
\<close>

theorem ApplyMoodDecay_subnormal_counterexample:
  "Valence mood_tiny \<noteq> 0 \<and> is_f64 (Valence mood_tiny) \<and>
   (\<forall>fused. \<exists>db' m. ApplyMoodDecay fused False False False 9 (db_with mood_tiny profile0)
                        = (db', Inr m) \<and>
                      \<bar>Valence m - 0\<bar> = \<bar>Valence mood_tiny - 0\<bar>) \<and>
   Valence mood_near \<noteq> 0 \<and> Energy mood_near \<noteq> 1 / 2 \<and> Sociability mood_near \<noteq> 1 / 2 \<and>
   is_f64 (Valence mood_near) \<and> is_f64 (Energy mood_near) \<and> is_f64 (Sociability mood_near) \<and>
   (\<forall>fused. \<exists>db' m. ApplyMoodDecay fused False False False 9 (db_with mood_near profile0)
                        = (db', Inr m) \<and>
                      \<bar>Valence m - 0\<bar> = \<bar>Valence mood_near - 0\<bar> \<and>
                      \<bar>Energy m - 1 / 2\<bar> = \<bar>Energy mood_near - 1 / 2\<bar> \<and>
                      \<bar>Sociability m - 1 / 2\<bar> = \<bar>Sociability mood_near - 1 / 2\<bar>)"
proof -
  have nz: "Valence mood_tiny \<noteq> 0" using pow2_pos [of "- 1074"] by (simp add: mood_tiny_def)
  have rep: "is_f64 (Valence mood_tiny)"
    using fl_subnormal_sticky [of 1] by (simp add: is_f64_def mood_tiny_def)
  have st: "f64_mul (pow2 (- 1074)) (fl (95 / 100)) = pow2 (- 1074)"
    unfolding f64_mul_def using c95_bounds by (intro fl_subnormal_sticky) simp_all
  have g: "GetMoodState False False 9 (db_with mood_tiny profile0)
             = (db_with mood_tiny profile0, Inr mood_tiny)"
    by (simp add: GetMoodState_def First_def db_with_def)
  have tiny: "\<exists>db' m. ApplyMoodDecay fused False False False 9 (db_with mood_tiny profile0)
                        = (db', Inr m) \<and>
                      \<bar>Valence m - 0\<bar> = \<bar>Valence mood_tiny - 0\<bar>" for fused
    unfolding ApplyMoodDecay_def g
    by (simp add: Save_mood_def Let_def db_with_def mood_tiny_def st [simplified])
  have nz2: "Valence mood_near \<noteq> 0" "Energy mood_near \<noteq> 1 / 2" "Sociability mood_near \<noteq> 1 / 2"
    using pow2_pos [of "- 1074"] pow2_pos [of "- 53"] pow2_pos [of "- 54"]
    by (simp_all add: mood_near_def)
  have rep2: "is_f64 (Valence mood_near)" "is_f64 (Energy mood_near)"
    "is_f64 (Sociability mood_near)"
    using near_valence near_energy near_sociability by (simp_all add: mood_near_def)
  have g2: "GetMoodState False False 9 (db_with mood_near profile0)
             = (db_with mood_near profile0, Inr mood_near)"
    by (simp add: GetMoodState_def First_def db_with_def)
  have near: "\<exists>db' m. ApplyMoodDecay fused False False False 9 (db_with mood_near profile0)
                        = (db', Inr m) \<and>
                      \<bar>Valence m - 0\<bar> = \<bar>Valence mood_near - 0\<bar> \<and>
                      \<bar>Energy m - 1 / 2\<bar> = \<bar>Energy mood_near - 1 / 2\<bar> \<and>
                      \<bar>Sociability m - 1 / 2\<bar> = \<bar>Sociability mood_near - 1 / 2\<bar>" for fused
  proof -
    have v: "f64_mul (Valence mood_near) (fl (95 / 100)) = Valence mood_near"
      using near_valence by (simp add: mood_near_def)
    have e: "f64_add_mul fused (Energy mood_near) (f64_sub (1 / 2) (Energy mood_near))
               (fl (5 / 100)) = Energy mood_near"
      using near_energy [of fused] by (simp add: mood_near_def)
    have s: "f64_add_mul fused (Sociability mood_near) (f64_sub (1 / 2) (Sociability mood_near))
               (fl (5 / 100)) = Sociability mood_near"
      using near_sociability [of fused] by (simp add: mood_near_def)
    show ?thesis
      unfolding ApplyMoodDecay_def g2
      by (simp add: Save_mood_def Let_def db_with_def v [simplified] e [simplified] s [simplified])
  qed
  show ?thesis using nz rep tiny nz2 rep2 near by blast
qed


text \<open>
  Claim C3, amended. A mood that \<open>ApplyMoodDecay\<close> saves is the mood it read with
  \<open>valence\<close> replaced by the rounded \<open>0.95 * valence\<close>, and \<open>energy\<close> and
  \<open>sociability\<close> by the rounded \<open>x + (0.5 - x) * 0.05\<close>. The call strictly
  reduces \<open>|valence - 0|\<close> for every binary64 \<open>valence\<close> of magnitude at least ten
  times \<open>2\<close> to the \<open>-1074\<close>, and strictly reduces \<open>|x - 0.5|\<close> for every
  binary64 \<open>energy\<close> or \<open>sociability\<close> \<open>x\<close> that is at least \<open>0.5\<close> plus eleven
  times \<open>2\<close> to the \<open>-53\<close>, or at most \<open>0.5\<close> minus eleven times \<open>2\<close> to the
  \<open>-54\<close>. Nearer to the fixpoint no component moves away from it: the magnitude of
  \<open>valence\<close> does not grow and its sign is kept, a component at or above \<open>0.5\<close> does
  not grow and one at or below does not shrink, and a component at its fixpoint stays
  there. With no failure of the engine the call saves a mood.
\<close>

theorem ApplyMoodDecay_toward_fixpoint:
  "(ApplyMoodDecay fused fault_first fault_create fault_save now db = (db', Inr m) \<longrightarrow>
      (\<exists>db1 mood.
          GetMoodState fault_first fault_create now db = (db1, Inr mood) \<and>
          m \<in> set (mood_state db') \<and>
          Valence m = f64_mul (Valence mood) (fl (95 / 100)) \<and>
          Energy m = f64_add_mul fused (Energy mood) (f64_sub (1 / 2) (Energy mood)) (fl (5 / 100)) \<and>
          Sociability m =
            f64_add_mul fused (Sociability mood) (f64_sub (1 / 2) (Sociability mood)) (fl (5 / 100)) \<and>
          (is_f64 (Valence mood) \<and> 10 * pow2 (- 1074) \<le> \<bar>Valence mood\<bar> \<longrightarrow>
             \<bar>Valence m - 0\<bar> < \<bar>Valence mood - 0\<bar>) \<and>
          (is_f64 (Energy mood) \<and>
           (1 / 2 + 11 * pow2 (- 53) \<le> Energy mood \<or> Energy mood \<le> 1 / 2 - 11 * pow2 (- 54)) \<longrightarrow>
             \<bar>Energy m - 1 / 2\<bar> < \<bar>Energy mood - 1 / 2\<bar>) \<and>
          (is_f64 (Sociability mood) \<and>
           (1 / 2 + 11 * pow2 (- 53) \<le> Sociability mood \<or>
            Sociability mood \<le> 1 / 2 - 11 * pow2 (- 54)) \<longrightarrow>
             \<bar>Sociability m - 1 / 2\<bar> < \<bar>Sociability mood - 1 / 2\<bar>) \<and>
          (is_f64 (Valence mood) \<longrightarrow>
             \<bar>Valence m\<bar> \<le> \<bar>Valence mood\<bar> \<and> (0 \<le> Valence mood \<longrightarrow> 0 \<le> Valence m) \<and>
             (Valence mood \<le> 0 \<longrightarrow> Valence m \<le> 0)) \<and>
          (is_f64 (Energy mood) \<longrightarrow>
             (1 / 2 \<le> Energy mood \<longrightarrow> Energy m \<le> Energy mood) \<and>
             (Energy mood \<le> 1 / 2 \<longrightarrow> Energy mood \<le> Energy m)) \<and>
          (is_f64 (Sociability mood) \<longrightarrow>
             (1 / 2 \<le> Sociability mood \<longrightarrow> Sociability m \<le> Sociability mood) \<and>
             (Sociability mood \<le> 1 / 2 \<longrightarrow> Sociability mood \<le> Sociability m)) \<and>
          (Valence mood = 0 \<longrightarrow> Valence m = 0) \<and>
          (Energy mood = 1 / 2 \<longrightarrow> Energy m = 1 / 2) \<and>
          (Sociability mood = 1 / 2 \<longrightarrow> Sociability m = 1 / 2))) \<and>
   (\<exists>db'' m'. ApplyMoodDecay fused False False False now db = (db'', Inr m'))"
proof -
  have c95: "0 \<le> fl (95 / 100)" "fl (95 / 100) \<le> 1" using c95_bounds by simp_all
  have c05: "0 \<le> fl (5 / 100)" using c05_bounds by simp
  have A: "\<exists>db1 mood.
          GetMoodState fault_first fault_create now db = (db1, Inr mood) \<and>
          m \<in> set (mood_state db') \<and>
          Valence m = f64_mul (Valence mood) (fl (95 / 100)) \<and>
          Energy m = f64_add_mul fused (Energy mood) (f64_sub (1 / 2) (Energy mood)) (fl (5 / 100)) \<and>
          Sociability m =
            f64_add_mul fused (Sociability mood) (f64_sub (1 / 2) (Sociability mood)) (fl (5 / 100)) \<and>
          (is_f64 (Valence mood) \<and> 10 * pow2 (- 1074) \<le> \<bar>Valence mood\<bar> \<longrightarrow>
             \<bar>Valence m - 0\<bar> < \<bar>Valence mood - 0\<bar>) \<and>
          (is_f64 (Energy mood) \<and>
           (1 / 2 + 11 * pow2 (- 53) \<le> Energy mood \<or> Energy mood \<le> 1 / 2 - 11 * pow2 (- 54)) \<longrightarrow>
             \<bar>Energy m - 1 / 2\<bar> < \<bar>Energy mood - 1 / 2\<bar>) \<and>
          (is_f64 (Sociability mood) \<and>
           (1 / 2 + 11 * pow2 (- 53) \<le> Sociability mood \<or>
            Sociability mood \<le> 1 / 2 - 11 * pow2 (- 54)) \<longrightarrow>
             \<bar>Sociability m - 1 / 2\<bar> < \<bar>Sociability mood - 1 / 2\<bar>) \<and>
          (is_f64 (Valence mood) \<longrightarrow>
             \<bar>Valence m\<bar> \<le> \<bar>Valence mood\<bar> \<and> (0 \<le> Valence mood \<longrightarrow> 0 \<le> Valence m) \<and>
             (Valence mood \<le> 0 \<longrightarrow> Valence m \<le> 0)) \<and>
          (is_f64 (Energy mood) \<longrightarrow>
             (1 / 2 \<le> Energy mood \<longrightarrow> Energy m \<le> Energy mood) \<and>
             (Energy mood \<le> 1 / 2 \<longrightarrow> Energy mood \<le> Energy m)) \<and>
          (is_f64 (Sociability mood) \<longrightarrow>
             (1 / 2 \<le> Sociability mood \<longrightarrow> Sociability m \<le> Sociability mood) \<and>
             (Sociability mood \<le> 1 / 2 \<longrightarrow> Sociability mood \<le> Sociability m)) \<and>
          (Valence mood = 0 \<longrightarrow> Valence m = 0) \<and>
          (Energy mood = 1 / 2 \<longrightarrow> Energy m = 1 / 2) \<and>
          (Sociability mood = 1 / 2 \<longrightarrow> Sociability m = 1 / 2)"
    if u: "ApplyMoodDecay fused fault_first fault_create fault_save now db = (db', Inr m)"
  proof -
    obtain db1 r where g: "GetMoodState fault_first fault_create now db = (db1, r)"
      by (cases "GetMoodState fault_first fault_create now db") auto
    from u g obtain mood where r: "r = Inr mood" by (cases r) (auto simp: ApplyMoodDecay_def)
    define mood3 where "mood3 = mood\<lparr>Valence := f64_mul (Valence mood) (fl (95 / 100)),
       Energy := f64_add_mul fused (Energy mood) (f64_sub (1 / 2) (Energy mood)) (fl (5 / 100)),
       Sociability := f64_add_mul fused (Sociability mood) (f64_sub (1 / 2) (Sociability mood))
                        (fl (5 / 100))\<rparr>"
    have s: "Save_mood fault_save now db1 mood3 = Inr (db', m)"
      using u g r by (auto simp: ApplyMoodDecay_def mood3_def Let_def split: sum.splits)
    from Save_mood_result [OF s]
    have mem: "m \<in> set (mood_state db')" and v: "Valence m = f64_mul (Valence mood) (fl (95 / 100))"
      and e: "Energy m = f64_add_mul fused (Energy mood) (f64_sub (1 / 2) (Energy mood)) (fl (5 / 100))"
      and so: "Sociability m = f64_add_mul fused (Sociability mood)
                 (f64_sub (1 / 2) (Sociability mood)) (fl (5 / 100))"
      by (simp_all add: mood3_def)
    have VS: "is_f64 (Valence mood) \<and> 10 * pow2 (- 1074) \<le> \<bar>Valence mood\<bar> \<longrightarrow>
             \<bar>Valence m - 0\<bar> < \<bar>Valence mood - 0\<bar>"
      unfolding v using valence_shrinks [of "Valence mood"] by simp
    have ES: "is_f64 (Energy mood) \<and>
           (1 / 2 + 11 * pow2 (- 53) \<le> Energy mood \<or> Energy mood \<le> 1 / 2 - 11 * pow2 (- 54)) \<longrightarrow>
             \<bar>Energy m - 1 / 2\<bar> < \<bar>Energy mood - 1 / 2\<bar>"
      unfolding e using decay_strict [of "Energy mood" fused] by blast
    have SS: "is_f64 (Sociability mood) \<and>
           (1 / 2 + 11 * pow2 (- 53) \<le> Sociability mood \<or>
            Sociability mood \<le> 1 / 2 - 11 * pow2 (- 54)) \<longrightarrow>
             \<bar>Sociability m - 1 / 2\<bar> < \<bar>Sociability mood - 1 / 2\<bar>"
      unfolding so using decay_strict [of "Sociability mood" fused] by blast
    have V: "is_f64 (Valence mood) \<longrightarrow>
             \<bar>Valence m\<bar> \<le> \<bar>Valence mood\<bar> \<and> (0 \<le> Valence mood \<longrightarrow> 0 \<le> Valence m) \<and>
             (Valence mood \<le> 0 \<longrightarrow> Valence m \<le> 0)"
      unfolding v f64_mul_def using fl_mul_shrinks [of "Valence mood" "fl (95 / 100)"] c95 by blast
    have E: "is_f64 (Energy mood) \<longrightarrow>
             (1 / 2 \<le> Energy mood \<longrightarrow> Energy m \<le> Energy mood) \<and>
             (Energy mood \<le> 1 / 2 \<longrightarrow> Energy mood \<le> Energy m)"
      unfolding e using toward_half [of "Energy mood" "fl (5 / 100)" fused] c05 by blast
    have S: "is_f64 (Sociability mood) \<longrightarrow>
             (1 / 2 \<le> Sociability mood \<longrightarrow> Sociability m \<le> Sociability mood) \<and>
             (Sociability mood \<le> 1 / 2 \<longrightarrow> Sociability mood \<le> Sociability m)"
      unfolding so using toward_half [of "Sociability mood" "fl (5 / 100)" fused] c05 by blast
    have F: "(Valence mood = 0 \<longrightarrow> Valence m = 0) \<and>
          (Energy mood = 1 / 2 \<longrightarrow> Energy m = 1 / 2) \<and>
          (Sociability mood = 1 / 2 \<longrightarrow> Sociability m = 1 / 2)"
    proof (intro conjI impI)
      assume "Valence mood = 0"
      then show "Valence m = 0" unfolding v by (simp only: zero_fixed)
    next
      assume "Energy mood = 1 / 2"
      then show "Energy m = 1 / 2" unfolding e by (simp only: half_fixed)
    next
      assume "Sociability mood = 1 / 2"
      then show "Sociability m = 1 / 2" unfolding so by (simp only: half_fixed)
    qed
    have G: "GetMoodState fault_first fault_create now db = (db1, Inr mood)" using g r by simp
    from F have F1: "Valence mood = 0 \<longrightarrow> Valence m = 0"
      and F2: "Energy mood = 1 / 2 \<longrightarrow> Energy m = 1 / 2"
      and F3: "Sociability mood = 1 / 2 \<longrightarrow> Sociability m = 1 / 2" by blast+
    from G mem v e so VS ES SS V E S F1 F2 F3 show ?thesis
      apply (intro exI [of _ db1] exI [of _ mood])
      apply (intro conjI)
      apply assumption+
      done
  qed
  have C: "\<exists>db'' m'. ApplyMoodDecay fused False False False now db = (db'', Inr m')"
  proof -
    from GetMoodState_ok [of now db] obtain db1 mood
      where g: "GetMoodState False False now db = (db1, Inr mood)" by blast
    define mood3 where "mood3 = mood\<lparr>Valence := f64_mul (Valence mood) (fl (95 / 100)),
       Energy := f64_add_mul fused (Energy mood) (f64_sub (1 / 2) (Energy mood)) (fl (5 / 100)),
       Sociability := f64_add_mul fused (Sociability mood) (f64_sub (1 / 2) (Sociability mood))
                        (fl (5 / 100))\<rparr>"
    from Save_mood_ok [of now db1 mood3] obtain db2 saved
      where "Save_mood False now db1 mood3 = Inr (db2, saved)" by blast
    then have "ApplyMoodDecay fused False False False now db = (db2, Inr saved)"
      using g by (simp add: ApplyMoodDecay_def mood3_def Let_def)
    then show ?thesis by blast
  qed
  show ?thesis by (rule conjI) (rule impI, erule A, rule C)
qed

theorem ApplyMoodDecay_toward_fixpoint_witness:
  "is_f64 (Valence mood_half) \<and> is_f64 (Energy mood_half) \<and> is_f64 (Sociability mood_half) \<and>
   10 * pow2 (- 1074) \<le> \<bar>Valence mood_half\<bar> \<and>
   1 / 2 + 11 * pow2 (- 53) \<le> Energy mood_half \<and>
   Sociability mood_half \<le> 1 / 2 - 11 * pow2 (- 54) \<and>
   (\<exists>db' m. ApplyMoodDecay False False False False 9 (db_with mood_half profile0) = (db', Inr m) \<and>
            \<bar>Valence m - 0\<bar> < \<bar>Valence mood_half - 0\<bar> \<and>
            \<bar>Energy m - 1 / 2\<bar> < \<bar>Energy mood_half - 1 / 2\<bar> \<and>
            \<bar>Sociability m - 1 / 2\<bar> < \<bar>Sociability mood_half - 1 / 2\<bar>)"
proof -
  have r: "is_f64 (Valence mood_half)" "is_f64 (Energy mood_half)" "is_f64 (Sociability mood_half)"
    by (simp_all add: is_f64_def mood_half_def fl_half fl_one fl_zero)
  have "pow2 (- 1074) \<le> pow2 (- 5)" by (rule pow2_mono) simp
  then have "10 * pow2 (- 1074) \<le> 1 / 2" by (simp add: pow2_def [of "- 5"])
  then have o1: "10 * pow2 (- 1074) \<le> \<bar>Valence mood_half\<bar>" by (simp add: mood_half_def)
  have o2: "1 / 2 + 11 * pow2 (- 53) \<le> Energy mood_half" by (simp add: mood_half_def pow2_def)
  have o3: "Sociability mood_half \<le> 1 / 2 - 11 * pow2 (- 54)" by (simp add: mood_half_def pow2_def)
  have g: "GetMoodState False False 9 (db_with mood_half profile0)
             = (db_with mood_half profile0, Inr mood_half)"
    by (simp add: GetMoodState_def First_def db_with_def)
  note T = ApplyMoodDecay_toward_fixpoint [of False False False False 9 "db_with mood_half profile0"]
  from T [THEN conjunct2] obtain db'' m'
    where u: "ApplyMoodDecay False False False False 9 (db_with mood_half profile0) = (db'', Inr m')"
    by (elim exE)
  from T [of db'' m', THEN conjunct1, THEN mp, OF u] obtain db1 mood
    where g': "GetMoodState False False 9 (db_with mood_half profile0) = (db1, Inr mood)"
      and V: "is_f64 (Valence mood) \<and> 10 * pow2 (- 1074) \<le> \<bar>Valence mood\<bar> \<longrightarrow>
             \<bar>Valence m' - 0\<bar> < \<bar>Valence mood - 0\<bar>"
      and E: "is_f64 (Energy mood) \<and>
           (1 / 2 + 11 * pow2 (- 53) \<le> Energy mood \<or> Energy mood \<le> 1 / 2 - 11 * pow2 (- 54)) \<longrightarrow>
             \<bar>Energy m' - 1 / 2\<bar> < \<bar>Energy mood - 1 / 2\<bar>"
      and S: "is_f64 (Sociability mood) \<and>
           (1 / 2 + 11 * pow2 (- 53) \<le> Sociability mood \<or>
            Sociability mood \<le> 1 / 2 - 11 * pow2 (- 54)) \<longrightarrow>
             \<bar>Sociability m' - 1 / 2\<bar> < \<bar>Sociability mood - 1 / 2\<bar>"
    by (elim exE conjE) (rule that, assumption+)
  have m: "mood = mood_half" using g g' by simp
  have "\<bar>Valence m' - 0\<bar> < \<bar>Valence mood_half - 0\<bar> \<and>
            \<bar>Energy m' - 1 / 2\<bar> < \<bar>Energy mood_half - 1 / 2\<bar> \<and>
            \<bar>Sociability m' - 1 / 2\<bar> < \<bar>Sociability mood_half - 1 / 2\<bar>"
    using V E S r o1 o2 o3 unfolding m by blast
  then show ?thesis using r o1 o2 o3 u by blast
qed

section \<open>Member profiles stay in range\<close>

lemma Save_profile_result:
  assumes "Save_profile fault now db p = Inr (db', saved)"
  shows "saved \<in> set (member_profiles db') \<and> mp_Activity saved = mp_Activity p \<and>
         mp_Intimacy saved = mp_Intimacy p"
  using assms
  by (auto simp: Save_profile_def Let_def split: if_splits)

lemma Save_profile_ok:
  assumes "\<not> list_ex (\<lambda>r. mp_UserID r = mp_UserID p \<and> mp_ID r \<noteq> mp_ID p) (member_profiles db)"
  shows "\<exists>db' saved. Save_profile False now db p = Inr (db', saved)"
  using assms by (simp add: Save_profile_def Let_def)

lemma decayed_activity_range:
  assumes "0 \<le> a" and "a \<le> 1" and "0 < days"
  shows "0 \<le> (if f64_sub_mul fused a (fl (1 / 10)) days < fl (1 / 10) then fl (1 / 10)
               else f64_sub_mul fused a (fl (1 / 10)) days) \<and>
         (if f64_sub_mul fused a (fl (1 / 10)) days < fl (1 / 10) then fl (1 / 10)
          else f64_sub_mul fused a (fl (1 / 10)) days) \<le> 1"
proof -
  have c0: "0 \<le> fl (1 / 10)" by (rule fl_nonneg) simp
  have c1: "fl (1 / 10) \<le> 1" using fl_mono [of "1 / 10" 1] by (simp add: fl_one)
  have m: "0 \<le> fl (1 / 10) * days" using c0 assms(3) by simp
  then have fm: "0 \<le> f64_mul (fl (1 / 10)) days" using fl_nonneg by (simp add: f64_mul_def)
  have "fl (a - fl (1 / 10) * days) \<le> fl 1" using m assms(2) by (intro fl_mono) simp
  moreover have "fl (a - f64_mul (fl (1 / 10)) days) \<le> fl 1" using fm assms(2) by (intro fl_mono) simp
  ultimately have "f64_sub_mul fused a (fl (1 / 10)) days \<le> 1"
    by (simp add: f64_sub_mul_def f64_sub_def fl_one)
  then show ?thesis using c0 c1 by auto
qed

lemma bumped_activity_range:
  assumes "0 \<le> a"
  shows "0 \<le> (if 1 < f64_add a (fl (5 / 100)) then 1 else f64_add a (fl (5 / 100))) \<and>
         (if 1 < f64_add a (fl (5 / 100)) then 1 else f64_add a (fl (5 / 100))) \<le> 1"
proof -
  have "0 \<le> fl (5 / 100)" by (rule fl_nonneg) simp
  then have "0 \<le> a + fl (5 / 100)" using assms by simp
  then have "0 \<le> f64_add a (fl (5 / 100))" using fl_nonneg by (simp add: f64_add_def)
  then show ?thesis by auto
qed


text \<open>
  The claim that the written profile is in range for every input profile fails:
  \<open>UpdateMemberProfile\<close> never assigns \<open>Intimacy\<close>, so a profile that starts with
  intimacy 5 is written with intimacy 5, whatever the clock readings.
\<close>

theorem UpdateMemberProfile_unclamped_counterexample:
  "\<not> profile_in_range (profile0\<lparr>mp_Intimacy := 5\<rparr>) \<and>
   (\<forall>fused since1 since2.
      \<exists>db' p. UpdateMemberProfile fused False 9 since1 since2
                 (db_with mood_half (profile0\<lparr>mp_Intimacy := 5\<rparr>))
                 (profile0\<lparr>mp_Intimacy := 5\<rparr>) = (db', Inr p) \<and>
               p \<in> set (member_profiles db') \<and> mp_Intimacy p = 5 \<and> \<not> mp_Intimacy p \<le> 1)"
proof -
  have a: "\<not> profile_in_range (profile0\<lparr>mp_Intimacy := 5\<rparr>)"
    by (simp add: profile_in_range_def)
  have "\<exists>db' p. UpdateMemberProfile fused False 9 since1 since2
                 (db_with mood_half (profile0\<lparr>mp_Intimacy := 5\<rparr>))
                 (profile0\<lparr>mp_Intimacy := 5\<rparr>) = (db', Inr p) \<and>
               p \<in> set (member_profiles db') \<and> mp_Intimacy p = 5 \<and> \<not> mp_Intimacy p \<le> 1"
    for fused since1 since2
    by (simp add: UpdateMemberProfile_def Save_profile_def Let_def db_with_def profile0_def)
  then show ?thesis using a by blast
qed

text \<open>
  Claim C5, amended. For every input profile whose \<open>activity\<close> and \<open>intimacy\<close> lie
  in \<open>[0, 1]\<close>, a profile that \<open>UpdateMemberProfile\<close> saves has both in \<open>[0, 1]\<close>
  and is a row of the table afterwards; the call does save when the engine does not fail
  and no other row has the profile's user id. An intimacy that the profile tool assigns
  is in \<open>[0, 1]\<close> for every input value.
\<close>

theorem UpdateMemberProfile_keeps_range:
  assumes "profile_in_range profile"
  shows
   "(UpdateMemberProfile fused fault_save now since1 since2 db profile = (db', Inr p) \<longrightarrow>
       profile_in_range p \<and> p \<in> set (member_profiles db')) \<and>
    (\<not> list_ex (\<lambda>r. mp_UserID r = mp_UserID profile \<and> mp_ID r \<noteq> mp_ID profile)
          (member_profiles db) \<longrightarrow>
       (\<exists>db'' p'. UpdateMemberProfile fused False now since1 since2 db profile = (db'', Inr p'))) \<and>
    0 \<le> mp_Intimacy (tool_set_intimacy (Some v) q) \<and>
    mp_Intimacy (tool_set_intimacy (Some v) q) \<le> 1"
proof -
  define days where "days = f64_div (Hours since1) 24"
  define p1 where "p1 = (if 0 < days then
                  (let q = profile\<lparr>mp_Activity :=
                                       f64_sub_mul fused (mp_Activity profile) (fl (1 / 10)) days\<rparr>
                   in if mp_Activity q < fl (1 / 10) then q\<lparr>mp_Activity := fl (1 / 10)\<rparr> else q)
                else profile)"
  define p2 where "p2 = (if since2 < Hour then
                  (let q = p1\<lparr>mp_Activity := f64_add (mp_Activity p1) (fl (5 / 100))\<rparr>
                   in if 1 < mp_Activity q then q\<lparr>mp_Activity := 1\<rparr> else q)
                else p1)"
  have U: "UpdateMemberProfile fused f now since1 since2 db profile =
             (case Save_profile f now db p2 of
                Inl err \<Rightarrow> (db, Inl err)
              | Inr (db', saved) \<Rightarrow> (db', Inr saved))" for f
    by (simp add: UpdateMemberProfile_def days_def p1_def p2_def Let_def)
  from assms have a: "0 \<le> mp_Activity profile" "mp_Activity profile \<le> 1"
    and i: "0 \<le> mp_Intimacy profile" "mp_Intimacy profile \<le> 1"
    by (simp_all add: profile_in_range_def)
  have r1: "0 \<le> mp_Activity p1 \<and> mp_Activity p1 \<le> 1 \<and> mp_Intimacy p1 = mp_Intimacy profile"
  proof (cases "0 < days")
    case True
    then show ?thesis
      using decayed_activity_range [OF a True, of fused]
      by (auto simp: p1_def Let_def split: if_splits)
  next
    case False
    then show ?thesis using a by (simp add: p1_def)
  qed
  have r2: "0 \<le> mp_Activity p2 \<and> mp_Activity p2 \<le> 1 \<and> mp_Intimacy p2 = mp_Intimacy profile"
  proof (cases "since2 < Hour")
    case True
    then show ?thesis
      using bumped_activity_range [of "mp_Activity p1"] r1
      by (auto simp: p2_def Let_def split: if_splits)
  next
    case False
    then show ?thesis using r1 by (simp add: p2_def)
  qed
  have A: "UpdateMemberProfile fused fault_save now since1 since2 db profile = (db', Inr p) \<longrightarrow>
       profile_in_range p \<and> p \<in> set (member_profiles db')"
  proof
    assume "UpdateMemberProfile fused fault_save now since1 since2 db profile = (db', Inr p)"
    then have "Save_profile fault_save now db p2 = Inr (db', p)"
      unfolding U by (auto split: sum.splits)
    from Save_profile_result [OF this] show "profile_in_range p \<and> p \<in> set (member_profiles db')"
      using r2 i by (simp add: profile_in_range_def)
  qed
  have B: "\<not> list_ex (\<lambda>r. mp_UserID r = mp_UserID profile \<and> mp_ID r \<noteq> mp_ID profile)
          (member_profiles db) \<longrightarrow>
       (\<exists>db'' p'. UpdateMemberProfile fused False now since1 since2 db profile = (db'', Inr p'))"
  proof
    assume n: "\<not> list_ex (\<lambda>r. mp_UserID r = mp_UserID profile \<and> mp_ID r \<noteq> mp_ID profile)
          (member_profiles db)"
    have k: "mp_UserID p2 = mp_UserID profile" "mp_ID p2 = mp_ID profile"
      by (simp_all add: p2_def p1_def Let_def)
    from n have "\<not> list_ex (\<lambda>r. mp_UserID r = mp_UserID p2 \<and> mp_ID r \<noteq> mp_ID p2)
          (member_profiles db)" using k by simp
    from Save_profile_ok [OF this, of now] obtain db2 saved
      where "Save_profile False now db p2 = Inr (db2, saved)" by blast
    then show "\<exists>db'' p'. UpdateMemberProfile fused False now since1 since2 db profile = (db'', Inr p')"
      unfolding U by simp
  qed
  have C: "0 \<le> mp_Intimacy (tool_set_intimacy (Some v) q) \<and>
    mp_Intimacy (tool_set_intimacy (Some v) q) \<le> 1"
    by (simp add: tool_set_intimacy_def Let_def)
  show ?thesis using A B C by blast
qed

theorem UpdateMemberProfile_keeps_range_witness:
  "profile_in_range profile0 \<and>
   (\<exists>db' p. UpdateMemberProfile False False 9 (2 * Hour) (2 * Hour)
               (db_with mood_half profile0) profile0 = (db', Inr p) \<and>
            profile_in_range p \<and> p \<in> set (member_profiles db'))"
proof -
  have r: "profile_in_range profile0" by (simp add: profile_in_range_def profile0_def)
  have n: "\<not> list_ex (\<lambda>r. mp_UserID r = mp_UserID profile0 \<and> mp_ID r \<noteq> mp_ID profile0)
          (member_profiles (db_with mood_half profile0))"
    by (simp add: db_with_def)
  note T = UpdateMemberProfile_keeps_range [OF r, of False _ 9 "2 * Hour" "2 * Hour"
      "db_with mood_half profile0"]
  from T n obtain db'' p'
    where u: "UpdateMemberProfile False False 9 (2 * Hour) (2 * Hour)
               (db_with mood_half profile0) profile0 = (db'', Inr p')"
    by blast
  from T [of False db'' p'] u
  have "profile_in_range p' \<and> p' \<in> set (member_profiles db'')" by blast
  then show ?thesis using r u by blast
qed

section \<open>Memory retrieval falls back to keywords\<close>

lemma ranks_before_total: "ranks_before a b \<or> ranks_before b a"
  by (auto simp: ranks_before_def)

lemma ranks_before_trans: "ranks_before a b \<Longrightarrow> ranks_before b c \<Longrightarrow> ranks_before a c"
  by (auto simp: ranks_before_def)

lemma set_order_insert: "set (order_insert x ys) = insert x (set ys)"
  by (induction ys) auto

lemma length_order_insert: "length (order_insert x ys) = Suc (length ys)"
  by (induction ys) auto

lemma sorted_order_insert:
  "sorted_wrt ranks_before ys \<Longrightarrow> sorted_wrt ranks_before (order_insert x ys)"
proof (induction ys)
  case Nil
  then show ?case by simp
next
  case (Cons y ys)
  show ?case
  proof (cases "ranks_before x y")
    case True
    then have "\<forall>z\<in>set ys. ranks_before x z"
      using Cons.prems ranks_before_trans by auto
    then show ?thesis using True Cons.prems by simp
  next
    case False
    then have "ranks_before y x" using ranks_before_total by blast
    then show ?thesis using False Cons by (auto simp: set_order_insert)
  qed
qed

lemma set_order_by_rank: "set (order_by_rank rows) = set rows"
  by (induction rows) (auto simp: order_by_rank_def set_order_insert)

lemma length_order_by_rank: "length (order_by_rank rows) = length rows"
  by (induction rows) (auto simp: order_by_rank_def length_order_insert)

lemma sorted_order_by_rank: "sorted_wrt ranks_before (order_by_rank rows)"
  by (induction rows) (auto simp: order_by_rank_def sorted_order_insert)

lemma sorted_wrt_take: "sorted_wrt P xs \<Longrightarrow> sorted_wrt P (take n xs)"
  by (induction xs arbitrary: n) (auto simp: take_Cons split: nat.splits dest: in_set_takeD)

lemma found_nonempty:
  assumes "r \<in> set found" and "m_ID r \<in> set results"
  shows "concat (map (\<lambda>i. case List.find (\<lambda>r. m_ID r = i) (rev found) of
                                       None \<Rightarrow> []
                                     | Some r \<Rightarrow> [r])
                            results) \<noteq> []"
proof -
  have "List.find (\<lambda>r'. m_ID r' = m_ID r) (rev found) \<noteq> None"
    using assms(1) by (auto simp: find_None_iff)
  then show ?thesis using assms(2) by (auto split: option.splits)
qed

lemma milvusVectorSearch_empty_unchanged:
  assumes "milvusVectorSearch search fault_find touch_fails now db = (db1, res)"
    and "case res of Inl err \<Rightarrow> True | Inr results \<Rightarrow> results = []"
  shows "db1 = db"
proof (cases search)
  case (Inl e)
  then show ?thesis using assms(1) by (simp add: milvusVectorSearch_def)
next
  case (Inr ids)
  show ?thesis
  proof (cases "length ids = 0 \<or> fault_find")
    case True
    then show ?thesis using assms(1) Inr
      by (auto simp: milvusVectorSearch_def split: if_splits)
  next
    case False
    let ?found = "filter (\<lambda>r. m_ID r \<in> set ids) (memories db)"
    have res: "res = Inr (concat (map (\<lambda>i. case List.find (\<lambda>r. m_ID r = i) (rev ?found) of
                                       None \<Rightarrow> []
                                     | Some r \<Rightarrow> [r]) ids))"
      and d: "db1 = db\<lparr>memories :=
                         map (\<lambda>r. if m_ID r \<in> set ids \<and> \<not> touch_fails (m_ID r)
                                   then r\<lparr>m_AccessCount := m_AccessCount r + 1,
                                          m_UpdatedAt := now\<rparr>
                                   else r)
                           (memories db)\<rparr>"
      using assms(1) Inr False by (auto simp: milvusVectorSearch_def Let_def)
    have "?found = []"
    proof (rule ccontr)
      assume "?found \<noteq> []"
      then obtain r where "r \<in> set ?found" by (cases ?found) auto
      then have "r \<in> set ?found" "m_ID r \<in> set ids" by auto
      from found_nonempty [OF this] show False using assms(2) res by simp
    qed
    then have "\<forall>r\<in>set (memories db). m_ID r \<notin> set ids"
      by (simp add: filter_empty_conv)
    then have "map (\<lambda>r. if m_ID r \<in> set ids \<and> \<not> touch_fails (m_ID r)
                                   then r\<lparr>m_AccessCount := m_AccessCount r + 1,
                                          m_UpdatedAt := now\<rparr>
                                   else r)
                           (memories db) = memories db"
      by (simp add: map_idI)
    then show ?thesis using d by simp
  qed
qed

lemma QueryMemory_fallback:
  assumes "vector_path_empty milvus_present embedding_present embed_ok search fault_vfind
             touch_fails now db"
  shows "QueryMemory milvus_present embedding_present embed_ok search fault_vfind touch_fails
           like eqc zero_is_unlimited fault_find fault_bump now db query groupID memType limit =
         keyword_search like eqc zero_is_unlimited fault_find fault_bump now db query groupID
           memType limit"
proof (cases "milvus_present \<and> embedding_present \<and> embed_ok")
  case False
  then show ?thesis by (auto simp: QueryMemory_def Let_def)
next
  case True
  obtain db1 res where m: "milvusVectorSearch search fault_vfind touch_fails now db = (db1, res)"
    by (cases "milvusVectorSearch search fault_vfind touch_fails now db") auto
  have e: "case res of Inl err \<Rightarrow> True | Inr results \<Rightarrow> results = []"
    using assms True m by (simp add: vector_path_empty_def)
  have "db1 = db" using m e by (rule milvusVectorSearch_empty_unchanged)
  then show ?thesis using True m e
    by (auto simp: QueryMemory_def Let_def split: sum.splits)
qed


lemma sorted_wrt_take_drop:
  assumes "sorted_wrt P xs" and "x \<in> set (take n xs)" and "y \<in> set (drop n xs)"
  shows "P x y"
proof -
  have "sorted_wrt P (take n xs @ drop n xs)" using assms(1) by simp
  then show ?thesis using assms(2,3) unfolding sorted_wrt_append by blast
qed

text \<open>
  Claim C6. Whenever the vector path gives nothing (no vector index, no embedding
  provider, a failed embedding or search, or no row found) and the limit \<open>k\<close> is
  positive, \<open>QueryMemory\<close> returns, when the engine does not fail, rows of the memory
  table that each match at least one white-space token of the query under \<open>LIKE\<close>,
  belong to group \<open>G\<close> unless \<open>G\<close> is 0 and have type \<open>T\<close> unless \<open>T\<close> is empty;
  the rows are in the order of importance descending, then \<open>updated_at\<close> descending;
  they are at most \<open>k\<close>, as many as \<open>k\<close> and the number of matching rows allow, and a
  matching row left out ranks no higher than any row returned.
\<close>

theorem QueryMemory_keyword_fallback:
  assumes "vector_path_empty milvus_present embedding_present embed_ok search fault_vfind
             touch_fails now db"
    and "0 < limit"
  shows
   "(\<exists>db' found.
       QueryMemory milvus_present embedding_present embed_ok search fault_vfind touch_fails
         like eqc zero_is_unlimited False fault_bump now db query groupID memType limit
         = (db', Inr found) \<and>
       (\<forall>m\<in>set found.
          m \<in> set (memories db) \<and> (groupID = 0 \<or> m_GroupID m = groupID) \<and>
          (memType = [] \<or> eqc (m_Type m) memType) \<and>
          (\<exists>kw\<in>set (Fields query). like ([37] @ kw @ [37]) (m_Content m))) \<and>
       sorted_wrt ranks_before found \<and>
       length found \<le> nat limit \<and>
       length found =
         min (nat limit)
           (length (filter (keyword_match like eqc (Fields query) groupID memType) (memories db))) \<and>
       (\<forall>r\<in>set (memories db).
          keyword_match like eqc (Fields query) groupID memType r \<longrightarrow>
          r \<in> set found \<or> (\<forall>m\<in>set found. ranks_before m r))) \<and>
    (\<not> mp \<or> \<not> ep \<longrightarrow> vector_path_empty mp ep eo search' fault_vfind' touch_fails' now' db0')"
proof -
  let ?match = "keyword_match like eqc (Fields query) groupID memType"
  let ?sorted = "order_by_rank (filter ?match (memories db))"
  let ?found = "take (nat limit) ?sorted"
  have Q: "QueryMemory milvus_present embedding_present embed_ok search fault_vfind touch_fails
         like eqc zero_is_unlimited False fault_bump now db query groupID memType limit =
         keyword_search like eqc zero_is_unlimited False fault_bump now db query groupID
           memType limit"
    using assms(1) by (rule QueryMemory_fallback)
  have nomatch: "filter ?match (memories db) = []" if "Fields query = []"
    using that by (simp add: keyword_match_def)
  have K: "\<exists>db'. keyword_search like eqc zero_is_unlimited False fault_bump now db query groupID
           memType limit = (db', Inr ?found)"
  proof (cases "Fields query = []")
    case True
    then show ?thesis using nomatch [OF True]
      by (simp add: keyword_search_def order_by_rank_def)
  next
    case False
    then show ?thesis using assms(2)
      by (auto simp: keyword_search_def sql_limit_def Let_def)
  qed
  have mem: "\<forall>m\<in>set ?found.
          m \<in> set (memories db) \<and> (groupID = 0 \<or> m_GroupID m = groupID) \<and>
          (memType = [] \<or> eqc (m_Type m) memType) \<and>
          (\<exists>kw\<in>set (Fields query). like ([37] @ kw @ [37]) (m_Content m))"
  proof
    fix m assume "m \<in> set ?found"
    then have "m \<in> set ?sorted" by (rule in_set_takeD)
    then have "m \<in> set (memories db)" and "?match m" by (simp_all add: set_order_by_rank)
    then show "m \<in> set (memories db) \<and> (groupID = 0 \<or> m_GroupID m = groupID) \<and>
          (memType = [] \<or> eqc (m_Type m) memType) \<and>
          (\<exists>kw\<in>set (Fields query). like ([37] @ kw @ [37]) (m_Content m))"
      by (auto simp: keyword_match_def list_ex_iff)
  qed
  have srt: "sorted_wrt ranks_before ?found"
    using sorted_order_by_rank by (rule sorted_wrt_take)
  have len: "length ?found = min (nat limit) (length (filter ?match (memories db)))"
    by (simp add: length_order_by_rank min.commute)
  have comp: "\<forall>r\<in>set (memories db). ?match r \<longrightarrow>
          r \<in> set ?found \<or> (\<forall>m\<in>set ?found. ranks_before m r)"
  proof (intro ballI impI)
    fix r assume "r \<in> set (memories db)" and "?match r"
    then have "r \<in> set ?sorted" by (simp add: set_order_by_rank)
    moreover have "set ?sorted = set ?found \<union> set (drop (nat limit) ?sorted)"
      by (simp only: set_append [symmetric] append_take_drop_id)
    ultimately have "r \<in> set ?found \<or> r \<in> set (drop (nat limit) ?sorted)"
      by blast
    then show "r \<in> set ?found \<or> (\<forall>m\<in>set ?found. ranks_before m r)"
      using sorted_wrt_take_drop [OF sorted_order_by_rank] by blast
  qed
  have V: "\<not> mp \<or> \<not> ep \<longrightarrow> vector_path_empty mp ep eo search' fault_vfind' touch_fails' now' db0'"
    by (auto simp: vector_path_empty_def)
  from K obtain db' where "keyword_search like eqc zero_is_unlimited False fault_bump now db query
      groupID memType limit = (db', Inr ?found)" by blast
  then have R: "QueryMemory milvus_present embedding_present embed_ok search fault_vfind touch_fails
         like eqc zero_is_unlimited False fault_bump now db query groupID memType limit
         = (db', Inr ?found)" using Q by (simp only:)
  have bound: "length ?found \<le> nat limit" by simp
  have E: "\<exists>db' found.
       QueryMemory milvus_present embedding_present embed_ok search fault_vfind touch_fails
         like eqc zero_is_unlimited False fault_bump now db query groupID memType limit
         = (db', Inr found) \<and>
       (\<forall>m\<in>set found.
          m \<in> set (memories db) \<and> (groupID = 0 \<or> m_GroupID m = groupID) \<and>
          (memType = [] \<or> eqc (m_Type m) memType) \<and>
          (\<exists>kw\<in>set (Fields query). like ([37] @ kw @ [37]) (m_Content m))) \<and>
       sorted_wrt ranks_before found \<and>
       length found \<le> nat limit \<and>
       length found =
         min (nat limit)
           (length (filter (keyword_match like eqc (Fields query) groupID memType) (memories db))) \<and>
       (\<forall>r\<in>set (memories db).
          keyword_match like eqc (Fields query) groupID memType r \<longrightarrow>
          r \<in> set found \<or> (\<forall>m\<in>set found. ranks_before m r))"
    apply (rule exI [of _ db'])
    apply (rule exI [of _ ?found])
    apply (rule conjI [OF R])
    apply (rule conjI [OF mem])
    apply (rule conjI [OF srt])
    apply (rule conjI [OF bound])
    apply (rule conjI [OF len])
    apply (rule comp)
    done
  show ?thesis by (rule conjI [OF E V])
qed


theorem QueryMemory_keyword_fallback_witness:
  "vector_path_empty False True True (Inr [7]) False (\<lambda>i. False) 9 db_cats \<and>
   (0::int) < 5 \<and>
   Fields (runes ''cat'') = [runes ''cat''] \<and>
   (\<exists>db' found.
       QueryMemory False True True (Inr [7]) False (\<lambda>i. False) like_exact (=) False False False
         9 db_cats (runes ''cat'') 1 [] 5 = (db', Inr found) \<and>
       found = [memory_of 3 1 ''cats!'' (4 / 5) 12, memory_of 1 1 ''a cat'' (1 / 2) 10] \<and>
       sorted_wrt ranks_before found \<and> length found \<le> nat 5)"
proof -
  have v: "vector_path_empty False True True (Inr [7]) False (\<lambda>i. False) 9 db_cats"
    by (simp add: vector_path_empty_def)
  have f: "Fields (runes ''cat'') = [runes ''cat'']"
    by (simp add: Fields_def runes_def isSpace_def)
  have l: "like_exact [37, 99, 97, 116, 37] (runes ''a cat'')"
    "\<not> like_exact [37, 99, 97, 116, 37] (runes ''dog'')"
    "like_exact [37, 99, 97, 116, 37] (runes ''cats!'')"
    by (simp_all add: runes_def)
  have k: "keyword_search like_exact (=) False False False 9 db_cats (runes ''cat'') 1 [] 5 =
      (db_cats\<lparr>memories :=
          [(memory_of 1 1 ''a cat'' (1 / 2) 10)\<lparr>m_AccessCount := 1, m_UpdatedAt := 9\<rparr>,
           memory_of 2 1 ''dog'' (9 / 10) 11,
           (memory_of 3 1 ''cats!'' (4 / 5) 12)\<lparr>m_AccessCount := 1, m_UpdatedAt := 9\<rparr>,
           memory_of 4 2 ''cat'' 1 13]\<rparr>,
       Inr [memory_of 3 1 ''cats!'' (4 / 5) 12, memory_of 1 1 ''a cat'' (1 / 2) 10])"
    unfolding keyword_search_def f
    using l
    by (simp add: Let_def db_cats_def keyword_match_def sql_limit_def order_by_rank_def
        ranks_before_def memory_of_def runes_def)
  have q: "QueryMemory False True True (Inr [7]) False (\<lambda>i. False) like_exact (=) False False False
         9 db_cats (runes ''cat'') 1 [] 5 =
         keyword_search like_exact (=) False False False 9 db_cats (runes ''cat'') 1 [] 5"
    by (simp add: QueryMemory_def)
  have lim: "(0::int) < 5" by simp
  note T = QueryMemory_keyword_fallback [OF v lim, where like = like_exact and eqc = "(=)"
      and zero_is_unlimited = False and fault_bump = False and query = "runes ''cat''"
      and groupID = 1 and memType = "[]", THEN conjunct1]
  from T obtain db' found where
    r: "QueryMemory False True True (Inr [7]) False (\<lambda>i. False) like_exact (=) False False False
         9 db_cats (runes ''cat'') 1 [] 5 = (db', Inr found)"
    and s: "sorted_wrt ranks_before found" and b: "length found \<le> nat 5"
    by blast
  have "found = [memory_of 3 1 ''cats!'' (4 / 5) 12, memory_of 1 1 ''a cat'' (1 / 2) 10]"
    using r q k by simp
  then show ?thesis using v f lim r s b by blast
qed

end
